theory Spec2Isabelle
  imports Main
begin

section \<open>JavaScript strings\<close>

text \<open>
  A JavaScript string is modelled as a \<^typ>\<open>string\<close>: a list of code units, each below 256.
  The helpers below are the \<open>String.prototype\<close> methods the parsers call, with the
  behaviour of ECMAScript on the arguments the sources pass.
\<close>

text \<open>\<open>s.startsWith(p)\<close>\<close>

definition startsWith :: "string \<Rightarrow> string \<Rightarrow> bool" where
  "startsWith s p = (take (length p) s = p)"

text \<open>\<open>s.endsWith(p)\<close>\<close>

definition endsWith :: "string \<Rightarrow> string \<Rightarrow> bool" where
  "endsWith s p = (length p \<le> length s \<and> drop (length s - length p) s = p)"

text \<open>\<open>s.includes(c)\<close> for a one-character needle.\<close>

definition str_includes :: "string \<Rightarrow> char \<Rightarrow> bool" where
  "str_includes s c = (c \<in> set s)"

text \<open>
  \<open>s.indexOf(c, from)\<close> for a one-character needle: the least index \<open>k \<ge> from\<close> with
  \<open>s[k] = c\<close>, or \<open>-1\<close>.
\<close>

fun indexOf_from :: "string \<Rightarrow> char \<Rightarrow> nat \<Rightarrow> int" where
  "indexOf_from s c k =
     (case drop k s of
        [] \<Rightarrow> - 1
      | _ # _ \<Rightarrow>
          (if c \<in> set (drop k s)
           then int (k + length (takeWhile (\<lambda>x. x \<noteq> c) (drop k s)))
           else - 1))"

definition indexOf :: "string \<Rightarrow> char \<Rightarrow> int" where
  "indexOf s c = indexOf_from s c 0"

text \<open>
  \<open>s.lastIndexOf(c, from)\<close> for a one-character needle: ECMAScript clamps \<open>from\<close> into
  \<open>[0, length - 1]\<close> and returns the greatest index \<open>k\<close> at most that with \<open>s[k] = c\<close>,
  or \<open>-1\<close>. A negative \<open>from\<close> therefore still inspects index 0.
\<close>

fun last_index_upto :: "string \<Rightarrow> char \<Rightarrow> nat \<Rightarrow> int" where
  "last_index_upto s c 0 = (case s of [] \<Rightarrow> - 1 | x # _ \<Rightarrow> if x = c then 0 else - 1)"
| "last_index_upto s c (Suc k) =
     (if Suc k < length s \<and> s ! Suc k = c then int (Suc k) else last_index_upto s c k)"

definition lastIndexOf :: "string \<Rightarrow> char \<Rightarrow> int \<Rightarrow> int" where
  "lastIndexOf s c from =
     (if s = [] then - 1
      else last_index_upto s c (min (nat (max 0 from)) (length s - 1)))"

text \<open>
  \<open>s.substring(a, b)\<close>: negative arguments count as 0, arguments beyond the length as
  the length, and the two are swapped when \<open>a > b\<close>.
\<close>

definition substring :: "string \<Rightarrow> int \<Rightarrow> int \<Rightarrow> string" where
  "substring s a b =
     (let a' = min (nat (max 0 a)) (length s);
          b' = min (nat (max 0 b)) (length s);
          lo = min a' b';
          hi = max a' b'
      in take (hi - lo) (drop lo s))"

text \<open>
  \<open>s.split(c)\<close> for a one-character separator. The result always has at least one
  piece: the empty string splits into \<open>[""]\<close>.
\<close>

fun split_chr :: "char \<Rightarrow> string \<Rightarrow> string list" where
  "split_chr c [] = [[]]"
| "split_chr c (x # xs) =
     (if x = c then [] # split_chr c xs
      else (case split_chr c xs of
              [] \<Rightarrow> [[x]]
            | p # ps \<Rightarrow> (x # p) # ps))"

text \<open>\<open>pieces.join(sep)\<close>\<close>

fun join :: "string \<Rightarrow> string list \<Rightarrow> string" where
  "join sep [] = []"
| "join sep [p] = p"
| "join sep (p # q # ps) = p @ sep @ join sep (q # ps)"

section \<open>The package identity resolver (\<open>BaseParser\<close>)\<close>

text \<open>\<open>BaseParser.isRelativeImport\<close>\<close>

definition isRelativeImport :: "string \<Rightarrow> bool" where
  "isRelativeImport packageName =
     (startsWith packageName ''.'' \<or> startsWith packageName ''/'')"

text \<open>
  \<open>BaseParser.getTopLevelPackage\<close>: a scoped path keeps its first two segments, any
  other path is cut at its first slash when that slash is not the first character.
\<close>

definition getTopLevelPackage :: "string \<Rightarrow> string" where
  "getTopLevelPackage importPath =
     (if startsWith importPath ''@'' then
        (let parts = split_chr CHR ''/'' importPath in
         if length parts \<ge> 2 then (parts ! 0) @ ''/'' @ (parts ! 1)
         else importPath)
      else
        (let slashIndex = indexOf importPath CHR ''/'' in
         if slashIndex > 0 then substring importPath 0 slashIndex
         else importPath))"

text \<open>
  The resolver in the words of the specification: the first two slash-delimited
  segments of a scoped path (the path itself when there are fewer than two), otherwise
  the text before the first slash if there is a slash, otherwise the path.
\<close>

definition segments :: "string \<Rightarrow> string list" where
  "segments p = split_chr CHR ''/'' p"

definition spec_resolve :: "string \<Rightarrow> string" where
  "spec_resolve p =
     (if p \<noteq> [] \<and> hd p = CHR ''@'' then
        (case segments p of
           a # b # _ \<Rightarrow> a @ ''/'' @ b
         | _ \<Rightarrow> p)
      else if CHR ''/'' \<in> set p then takeWhile (\<lambda>x. x \<noteq> CHR ''/'') p
      else p)"

text \<open>The same, with the guard of the code: a leading slash does not cut the path.\<close>

definition spec_resolve_guarded :: "string \<Rightarrow> string" where
  "spec_resolve_guarded p =
     (if p \<noteq> [] \<and> hd p = CHR ''@'' then
        (case segments p of
           a # b # _ \<Rightarrow> a @ ''/'' @ b
         | _ \<Rightarrow> p)
      else if CHR ''/'' \<in> set p \<and> hd p \<noteq> CHR ''/'' then takeWhile (\<lambda>x. x \<noteq> CHR ''/'') p
      else p)"

section \<open>Character classes\<close>

text \<open>
  The regular expressions of the sources are compiled without the \<open>u\<close> flag. On code
  units below 256 the class \<open>\s\<close> (and \<open>trim\<close>) is tab, line feed, vertical tab, form
  feed, carriage return, space and no-break space; \<open>\w\<close> is an ASCII letter, a digit
  or the underscore; the dot matches everything but line feed and carriage return.
\<close>

definition is_ws :: "char \<Rightarrow> bool" where
  "is_ws c =
     (c \<in> set [CHR 0x09, CHR 0x0A, CHR 0x0B, CHR 0x0C, CHR 0x0D, CHR 0x20, CHR 0xA0])"

definition is_word :: "char \<Rightarrow> bool" where
  "is_word c =
     (let n = (of_char c :: nat)
      in (48 \<le> n \<and> n \<le> 57) \<or> (65 \<le> n \<and> n \<le> 90) \<or> n = 95 \<or> (97 \<le> n \<and> n \<le> 122))"

definition is_dot :: "char \<Rightarrow> bool" where
  "is_dot c = (c \<noteq> CHR 0x0A \<and> c \<noteq> CHR 0x0D)"

definition is_quote :: "char \<Rightarrow> bool" where
  "is_quote c = (c = CHR 0x27 \<or> c = CHR 0x22)"

text \<open>\<open>s.trim()\<close> and \<open>s.trimEnd()\<close>\<close>

definition trimEnd :: "string \<Rightarrow> string" where
  "trimEnd s = rev (dropWhile is_ws (rev s))"

definition trim :: "string \<Rightarrow> string" where
  "trim s = trimEnd (dropWhile is_ws s)"

section \<open>Regular expressions\<close>

text \<open>
  The sources lean on the backtracking matcher of ECMAScript. It is modelled by a
  datatype of patterns and a matcher that returns, for a pattern and a cursor, every
  way the pattern can match there, in the order backtracking tries them: a greedy
  quantifier lists the longer matches first. The first element of the list is the match
  the engine reports.

  The cursor holds the text left of it (reversed), the text right of it and the
  capture groups set so far.
\<close>

record mstate =
  consumed :: string
  remaining :: string
  captures :: "nat \<Rightarrow> string option"

datatype re =
    Cls "char \<Rightarrow> bool"
  | Lit string
  | Seq re re
  | Alt re re
  | Opt re
  | Star re
  | Grp nat re
  | Bol
  | Eol
  | NotBehind "char \<Rightarrow> bool"
  | Ahead re
  | WordB

text \<open>
  \<open>Cls P\<close> is one character of a class, \<open>Lit l\<close> a literal text, \<open>Opt r\<close> the greedy
  \<open>r?\<close>, \<open>Star r\<close> the greedy \<open>r*\<close>, \<open>Grp n r\<close> the capture group number \<open>n\<close>, \<open>Bol\<close>
  and \<open>Eol\<close> the anchors \<open>^\<close> and \<open>$\<close> without the multiline flag, \<open>NotBehind P\<close> the
  lookbehind \<open>(?<!c)\<close> for a class, \<open>Ahead r\<close> the lookahead \<open>(?=r)\<close> and \<open>WordB\<close> the
  word boundary \<open>\b\<close>.
\<close>

definition Plus :: "re \<Rightarrow> re" where
  "Plus r = Seq r (Star r)"

fun seqs :: "re list \<Rightarrow> re" where
  "seqs [] = Lit []"
| "seqs [r] = r"
| "seqs (r # rs) = Seq r (seqs rs)"

definition advance :: "nat \<Rightarrow> mstate \<Rightarrow> mstate" where
  "advance n s = s\<lparr>consumed := rev (take n (remaining s)) @ consumed s,
                   remaining := drop n (remaining s)\<rparr>"

definition word_before :: "mstate \<Rightarrow> bool" where
  "word_before s = (case consumed s of [] \<Rightarrow> False | c # _ \<Rightarrow> is_word c)"

definition word_after :: "mstate \<Rightarrow> bool" where
  "word_after s = (case remaining s of [] \<Rightarrow> False | c # _ \<Rightarrow> is_word c)"

text \<open>
  As in ECMAScript, an iteration of \<open>r*\<close> or \<open>r?\<close> that consumes nothing is rejected.
  No pattern of the sources has a capture group inside a part that is repeated more than
  once, so the reset of such groups at each iteration is not modelled.
\<close>

function (sequential) rmatch :: "re \<Rightarrow> mstate \<Rightarrow> mstate list" where
  "rmatch (Cls P) s =
     (case remaining s of
        [] \<Rightarrow> []
      | c # _ \<Rightarrow> if P c then [advance 1 s] else [])"
| "rmatch (Lit l) s =
     (if take (length l) (remaining s) = l then [advance (length l) s] else [])"
| "rmatch (Seq r1 r2) s = concat (map (rmatch r2) (rmatch r1 s))"
| "rmatch (Alt r1 r2) s = rmatch r1 s @ rmatch r2 s"
| "rmatch (Opt r) s =
     filter (\<lambda>s'. length (remaining s') < length (remaining s)) (rmatch r s) @ [s]"
| "rmatch (Star r) s =
     concat (map (\<lambda>s'. if length (remaining s') < length (remaining s)
                         then rmatch (Star r) s' else [])
                 (rmatch r s)) @ [s]"
| "rmatch (Grp n r) s =
     map (\<lambda>s'. s'\<lparr>captures := (captures s')
              (n \<mapsto> rev (take (length (consumed s') - length (consumed s)) (consumed s')))\<rparr>)
         (rmatch r s)"
| "rmatch Bol s = (if consumed s = [] then [s] else [])"
| "rmatch Eol s = (if remaining s = [] then [s] else [])"
| "rmatch (NotBehind P) s =
     (case consumed s of [] \<Rightarrow> [s] | c # _ \<Rightarrow> if P c then [] else [s])"
| "rmatch (Ahead r) s =
     (case rmatch r s of [] \<Rightarrow> [] | s' # _ \<Rightarrow> [s\<lparr>captures := captures s'\<rparr>])"
| "rmatch WordB s = (if word_before s \<noteq> word_after s then [s] else [])"
  by pat_completeness auto
termination
  by (relation "measures [\<lambda>(r, s). size r, \<lambda>(r, s). length (remaining s)]") auto

text \<open>The equation of \<open>Star\<close> unfolds itself and is applied by hand.\<close>

declare rmatch.simps(6) [simp del]

definition start_state :: "string \<Rightarrow> string \<Rightarrow> mstate" where
  "start_state bef rest = \<lparr>consumed = bef, remaining = rest, captures = (\<lambda>_. None)\<rparr>"

text \<open>
  A match is the index where it starts and the cursor where it ends. \<open>exec_from\<close> is one
  call of \<open>RegExp.prototype.exec\<close>: the leftmost start at or after the cursor where the
  pattern matches, the end of the text included.
\<close>

type_synonym rx_match = "nat \<times> mstate"

fun exec_from :: "re \<Rightarrow> string \<Rightarrow> string \<Rightarrow> rx_match option" where
  "exec_from r bef [] =
     (case rmatch r (start_state bef []) of
        [] \<Rightarrow> None
      | m # _ \<Rightarrow> Some (length bef, m))"
| "exec_from r bef (c # cs) =
     (case rmatch r (start_state bef (c # cs)) of
        [] \<Rightarrow> exec_from r (c # bef) cs
      | m # _ \<Rightarrow> Some (length bef, m))"

text \<open>\<open>match.index\<close>, the end offset of the match, \<open>match[0]\<close> and \<open>match[n]\<close>.\<close>

definition m_index :: "rx_match \<Rightarrow> nat" where
  "m_index m = fst m"

definition m_end :: "rx_match \<Rightarrow> nat" where
  "m_end m = length (consumed (snd m))"

definition m_text :: "rx_match \<Rightarrow> string" where
  "m_text m = rev (take (m_end m - m_index m) (consumed (snd m)))"

definition m_group :: "rx_match \<Rightarrow> nat \<Rightarrow> string option" where
  "m_group m n = captures (snd m) n"

text \<open>
  A group that takes part in every match of its pattern is read with \<open>m_group_str\<close>.
\<close>

definition m_group_str :: "rx_match \<Rightarrow> nat \<Rightarrow> string" where
  "m_group_str m n = (case m_group m n of None \<Rightarrow> [] | Some g \<Rightarrow> g)"

text \<open>\<open>s.match(r)\<close> for a pattern without the global flag.\<close>

definition str_match :: "string \<Rightarrow> re \<Rightarrow> rx_match option" where
  "str_match s r = exec_from r [] s"

text \<open>
  The loop \<open>while ((match = regex.exec(text)) !== null)\<close> over a global pattern: each
  call starts where the last match ended. A match that ends where the search started
  leaves \<open>lastIndex\<close> in place, and the loop of the source would find it for ever: the
  model returns \<open>None\<close> there.
\<close>

function exec_all :: "re \<Rightarrow> string \<Rightarrow> string \<Rightarrow> rx_match list option" where
  "exec_all r bef rest =
     (case exec_from r bef rest of
        None \<Rightarrow> Some []
      | Some m \<Rightarrow>
          if length (remaining (snd m)) < length rest
          then map_option ((#) m) (exec_all r (consumed (snd m)) (remaining (snd m)))
          else None)"
  by pat_completeness auto
termination
  by (relation "measure (\<lambda>(r, bef, rest). length rest)") auto

declare exec_all.simps [simp del]

text \<open>
  \<open>s.match(r)\<close> and \<open>s.replace(r, repl)\<close> for a global pattern collect every match;
  after an empty match they step one character on.
\<close>

function match_all :: "re \<Rightarrow> string \<Rightarrow> string \<Rightarrow> rx_match list" where
  "match_all r bef rest =
     (case exec_from r bef rest of
        None \<Rightarrow> []
      | Some m \<Rightarrow>
          if length (remaining (snd m)) < length rest then
            (if m_end m = m_index m then
               m # (case remaining (snd m) of
                      [] \<Rightarrow> []
                    | c # cs \<Rightarrow> match_all r (c # consumed (snd m)) cs)
             else m # match_all r (consumed (snd m)) (remaining (snd m)))
          else
            m # (case rest of
                   [] \<Rightarrow> []
                 | c # cs \<Rightarrow> match_all r (c # bef) cs))"
  by pat_completeness auto
termination
  by (relation "measure (\<lambda>(r, bef, rest). length rest)") auto

declare match_all.simps [simp del]

text \<open>\<open>(s.match(r) || []).length\<close> for a global pattern.\<close>

definition count_matches :: "string \<Rightarrow> re \<Rightarrow> nat" where
  "count_matches s r = length (match_all r [] s)"

fun replace_pieces :: "string \<Rightarrow> string \<Rightarrow> nat \<Rightarrow> rx_match list \<Rightarrow> string" where
  "replace_pieces s repl pos [] = drop pos s"
| "replace_pieces s repl pos (m # ms) =
     take (m_index m - pos) (drop pos s) @ repl @ replace_pieces s repl (m_end m) ms"

definition replace_all :: "string \<Rightarrow> re \<Rightarrow> string \<Rightarrow> string" where
  "replace_all s r repl = replace_pieces s repl 0 (match_all r [] s)"

text \<open>
  \<open>s.split(r)\<close> for a pattern without capture groups that does not match the empty
  string: the pattern is tried at every index below the length; a match that ends where
  the current piece starts is skipped. \<open>piece\<close> is the current piece, reversed.
\<close>

function split_re_from :: "re \<Rightarrow> string \<Rightarrow> string \<Rightarrow> string \<Rightarrow> string list" where
  "split_re_from r bef [] piece = [rev piece]"
| "split_re_from r bef (c # cs) piece =
     (case rmatch r (start_state bef (c # cs)) of
        [] \<Rightarrow> split_re_from r (c # bef) cs (c # piece)
      | m # _ \<Rightarrow>
          if length (remaining m) < length (c # cs) then
            rev piece # split_re_from r (consumed m) (remaining m) []
          else if piece = [] then split_re_from r (c # bef) cs [c]
          else rev piece # split_re_from r (c # bef) cs [c])"
  by pat_completeness auto
termination
  by (relation "measure (\<lambda>(r, bef, rest, piece). length rest)") auto

definition split_re :: "string \<Rightarrow> re \<Rightarrow> string list" where
  "split_re s r = split_re_from r [] s []"

text \<open>The separator \<open>\s+as\s+\<close> of both parsers.\<close>

definition AS_SEPARATOR :: re where
  "AS_SEPARATOR = seqs [Plus (Cls is_ws), Lit ''as'', Plus (Cls is_ws)]"

text \<open>\<open>item.trim().split(/\s+as\s+/)[0].trim()\<close>\<close>

definition name_before_as :: "string \<Rightarrow> string" where
  "name_before_as item =
     (case split_re (trim item) AS_SEPARATOR of
        [] \<Rightarrow> []
      | p # _ \<Rightarrow> trim p)"

section \<open>Documents, positions and ranges\<close>

text \<open>
  The editor's document is its language tag, its address and its text. The editor keeps
  the lines of a document without their line ends, and the text joins them with the line
  end of the document, LF or CR LF: a carriage return stands in the text only before a
  line feed.
\<close>

record TextDocument =
  languageId :: string
  uri :: string
  getText :: string

record Position =
  line :: nat
  character :: nat

record Range =
  range_start :: Position
  range_end :: Position

definition isBefore :: "Position \<Rightarrow> Position \<Rightarrow> bool" where
  "isBefore p q = (line p < line q \<or> (line p = line q \<and> character p < character q))"

text \<open>\<open>new vscode.Range(a, b)\<close> orders its two ends.\<close>

definition mk_Range :: "Position \<Rightarrow> Position \<Rightarrow> Range" where
  "mk_Range a b =
     (if isBefore b a then \<lparr>range_start = b, range_end = a\<rparr>
      else \<lparr>range_start = a, range_end = b\<rparr>)"

definition contains_pos :: "Range \<Rightarrow> Position \<Rightarrow> bool" where
  "contains_pos r p = (\<not> isBefore p (range_start r) \<and> \<not> isBefore (range_end r) p)"

text \<open>\<open>range.contains(other)\<close>\<close>

definition contains_range :: "Range \<Rightarrow> Range \<Rightarrow> bool" where
  "contains_range r other =
     (contains_pos r (range_start other) \<and> contains_pos r (range_end other))"

text \<open>
  The lines of the document: the pieces of the text between line feeds, each without the
  carriage return that ends it in a document with CR LF line ends.
\<close>

definition strip_cr :: "string \<Rightarrow> string" where
  "strip_cr s = (if s \<noteq> [] \<and> last s = CHR 0x0D then butlast s else s)"

definition doc_lines :: "TextDocument \<Rightarrow> string list" where
  "doc_lines doc = map strip_cr (split_chr CHR 0x0A (getText doc))"

text \<open>\<open>document.lineAt(i).text\<close>; a line number out of range throws.\<close>

definition lineAt :: "TextDocument \<Rightarrow> nat \<Rightarrow> string + string" where
  "lineAt doc i =
     (if i < length (doc_lines doc) then Inr (doc_lines doc ! i)
      else Inl ''Error: Illegal value for `line`'')"

text \<open>
  \<open>document.positionAt(offset)\<close>; an offset beyond the text counts as its end, and a
  column beyond the end of the line (an offset inside a CR LF line end) counts as the
  end of the line. The line found is always a line of the document.
\<close>

definition positionAt :: "TextDocument \<Rightarrow> nat \<Rightarrow> Position" where
  "positionAt doc offset =
     (let pre = take offset (getText doc);
          ln = length (filter (\<lambda>c. c = CHR 0x0A) pre);
          col = length (takeWhile (\<lambda>c. c \<noteq> CHR 0x0A) (rev pre))
      in \<lparr>line = ln, character = min col (length (doc_lines doc ! ln))\<rparr>)"

text \<open>\<open>BaseParser.createRange\<close>\<close>

definition createRange :: "nat \<Rightarrow> nat \<Rightarrow> nat \<Rightarrow> nat \<Rightarrow> Range" where
  "createRange startLine startChar endLine endChar =
     mk_Range \<lparr>line = startLine, character = startChar\<rparr>
              \<lparr>line = endLine, character = endChar\<rparr>"

section \<open>Import records\<close>

datatype Language = Python | JavaScript | TypeScript

record ImportInfo =
  packageName :: string
  importStatement :: string
  language :: Language
  range_loc :: Range
  fileUri :: string
  namedImports :: "string list option"
  isDefaultImport :: "bool option"
  isRequire :: "bool option"

record ParseResult =
  imports_list :: "ImportInfo list"
  errors_list :: "string list"

section \<open>The Python parser (\<open>PythonParser\<close>)\<close>

text \<open>
  \<open>IMPORT_REGEX\<close>: at the start of the line \<open>import\<close>, white space, a dotted name
  (group 1) and optionally \<open>as\<close> with an alias.
\<close>

definition IMPORT_REGEX :: re where
  "IMPORT_REGEX =
     seqs [Bol, Lit ''import'', Plus (Cls is_ws),
           Grp 1 (Plus (Cls (\<lambda>c. is_word c \<or> c = CHR ''.''))),
           Opt (seqs [Plus (Cls is_ws), Lit ''as'', Plus (Cls is_ws), Plus (Cls is_word)])]"

text \<open>
  \<open>FROM_IMPORT_REGEX\<close>: at the start of the line \<open>from\<close>, a dotted name (group 1),
  \<open>import\<close> and the rest of the line (group 2).
\<close>

definition FROM_IMPORT_REGEX :: re where
  "FROM_IMPORT_REGEX =
     seqs [Bol, Lit ''from'', Plus (Cls is_ws),
           Grp 1 (Plus (Cls (\<lambda>c. is_word c \<or> c = CHR ''.''))),
           Plus (Cls is_ws), Lit ''import'', Plus (Cls is_ws),
           Grp 2 (Plus (Cls is_dot))]"

text \<open>
  \<open>MULTI_IMPORT_REGEX\<close>: at the start of the line \<open>import\<close>, white space and a run of
  word characters, dots, white space and commas (group 1).
\<close>

definition MULTI_IMPORT_REGEX :: re where
  "MULTI_IMPORT_REGEX =
     seqs [Bol, Lit ''import'', Plus (Cls is_ws),
           Grp 1 (Plus (Cls (\<lambda>c. is_word c \<or> c = CHR ''.'' \<or> is_ws c \<or> c = CHR '','')))]"

text \<open>\<open>PythonParser.parseNamedImports\<close>: the names before \<open>as\<close> of a comma list.\<close>

definition py_parseNamedImports :: "string \<Rightarrow> string list" where
  "py_parseNamedImports content =
     (let content' = replace_all content (Cls (\<lambda>c. c = CHR 0x28 \<or> c = CHR 0x29)) []
      in filter (\<lambda>name. name \<noteq> [] \<and> name \<noteq> [CHR 0x2A])
           (map name_before_as (split_chr CHR '','' content')))"

text \<open>\<open>PythonParser.getLineRange\<close>\<close>

definition getLineRange :: "TextDocument \<Rightarrow> nat \<Rightarrow> string + Range" where
  "getLineRange doc lineIndex =
     (case lineAt doc lineIndex of
        Inl e \<Rightarrow> Inl e
      | Inr text \<Rightarrow>
          Inr (mk_Range \<lparr>line = lineIndex, character = 0\<rparr>
                        \<lparr>line = lineIndex, character = length text\<rparr>))"

text \<open>
  The two continuation loops of \<open>parseFromImport\<close>: lines are taken in while the last
  one has no closing parenthesis, and then while the last one ends in a backslash.
\<close>

function paren_loop :: "string list \<Rightarrow> nat \<Rightarrow> string \<Rightarrow> nat \<times> string" where
  "paren_loop lines endLine importContent =
     (if endLine + 1 < length lines \<and> \<not> str_includes (lines ! endLine) (CHR 0x29)
      then paren_loop lines (endLine + 1)
             (importContent @ '' '' @ trim (lines ! (endLine + 1)))
      else (endLine, importContent))"
  by pat_completeness auto
termination
  by (relation "measure (\<lambda>(lines, endLine, c). length lines - endLine)") auto

declare paren_loop.simps [simp del]

function backslash_loop :: "string list \<Rightarrow> nat \<Rightarrow> string \<Rightarrow> nat \<times> string" where
  "backslash_loop lines endLine importContent =
     (if endsWith (trimEnd (lines ! endLine)) [CHR 0x5C] \<and> endLine + 1 < length lines
      then backslash_loop lines (endLine + 1)
             (importContent @ '' '' @ trim (lines ! (endLine + 1)))
      else (endLine, importContent))"
  by pat_completeness auto
termination
  by (relation "measure (\<lambda>(lines, endLine, c). length lines - endLine)") auto

declare backslash_loop.simps [simp del]

text \<open>\<open>lines.slice(a, b)\<close>\<close>

definition slice :: "'a list \<Rightarrow> nat \<Rightarrow> nat \<Rightarrow> 'a list" where
  "slice xs a b = take (b - a) (drop a xs)"

record FromImportResult =
  import_found :: "ImportInfo option"
  nextLineIndex :: nat

text \<open>\<open>PythonParser.parseFromImport\<close>\<close>

definition parseFromImport ::
  "TextDocument \<Rightarrow> rx_match \<Rightarrow> nat \<Rightarrow> string list \<Rightarrow> FromImportResult" where
  "parseFromImport doc m startLine lines =
     (let packagePath = m_group_str m 1 in
      if startsWith packagePath ''.''
      then \<lparr>import_found = None, nextLineIndex = startLine + 1\<rparr>
      else
        (let packageName = packagePath;
             importContent = m_group_str m 2;
             (endLine1, content1) =
               (if str_includes importContent (CHR 0x28) \<and>
                   \<not> str_includes importContent (CHR 0x29)
                then paren_loop lines startLine importContent
                else (startLine, importContent));
             (endLine, content) = backslash_loop lines endLine1 content1;
             named = py_parseNamedImports content;
             fullStatement = join [CHR 0x0A] (slice lines startLine (endLine + 1))
         in \<lparr>import_found = Some
               \<lparr>packageName = packageName,
                importStatement = fullStatement,
                language = Python,
                range_loc = createRange startLine 0 endLine (length (lines ! endLine)),
                fileUri = uri doc,
                namedImports = Some named,
                isDefaultImport = None,
                isRequire = None\<rparr>,
              nextLineIndex = endLine + 1\<rparr>))"

text \<open>
  \<open>PythonParser.parseMultiImport\<close>: one record per package of the comma list, each
  with the text and the range of the whole line. \<open>lineAt\<close> may throw; the records
  collected so far are lost with it.
\<close>

fun multi_import_loop ::
  "TextDocument \<Rightarrow> nat \<Rightarrow> string list \<Rightarrow> ImportInfo list \<Rightarrow> string + ImportInfo list" where
  "multi_import_loop doc lineIndex [] imports = Inr imports"
| "multi_import_loop doc lineIndex (pkg # packages) imports =
     (if pkg \<noteq> [] \<and> \<not> isRelativeImport pkg then
        (case lineAt doc lineIndex of
           Inl e \<Rightarrow> Inl e
         | Inr text \<Rightarrow>
             (case getLineRange doc lineIndex of
                Inl e \<Rightarrow> Inl e
              | Inr r \<Rightarrow>
                  multi_import_loop doc lineIndex packages
                    (imports @
                     [\<lparr>packageName = pkg,
                       importStatement = text,
                       language = Python,
                       range_loc = r,
                       fileUri = uri doc,
                       namedImports = None,
                       isDefaultImport = None,
                       isRequire = None\<rparr>])))
      else multi_import_loop doc lineIndex packages imports)"

definition parseMultiImport ::
  "TextDocument \<Rightarrow> rx_match \<Rightarrow> nat \<Rightarrow> string + ImportInfo list" where
  "parseMultiImport doc m lineIndex =
     (let packagesStr = m_group_str m 1;
          packages = map name_before_as (split_chr CHR '','' packagesStr)
      in multi_import_loop doc lineIndex packages [])"

text \<open>Decimal digits of a number, for the line number of an error message.\<close>

function show_nat :: "nat \<Rightarrow> string" where
  "show_nat n =
     (if n < 10 then [char_of (48 + n)]
      else show_nat (n div 10) @ [char_of (48 + n mod 10)])"
  by pat_completeness auto
termination
  by (relation "measure id") auto

declare show_nat.simps [simp del]

definition line_error :: "nat \<Rightarrow> string \<Rightarrow> string" where
  "line_error lineIndex e = ''Error parsing line '' @ show_nat (lineIndex + 1) @ '': '' @ e"

text \<open>
  One turn of the loop of \<open>PythonParser.parse\<close>, from the line index and the two
  arrays it fills to their values at the next turn. The three shapes are tried in the
  order of the source; an exception of the body is caught, recorded and followed by the
  next line.
\<close>

definition parse_step ::
  "TextDocument \<Rightarrow> string list \<Rightarrow> nat \<Rightarrow> ImportInfo list \<Rightarrow> string list \<Rightarrow>
   nat \<times> ImportInfo list \<times> string list" where
  "parse_step doc lines lineIndex imports errors =
     (let ln = trim (lines ! lineIndex) in
      if ln = [] \<or> startsWith ln ''#''
      then (lineIndex + 1, imports, errors)
      else
        (case str_match ln FROM_IMPORT_REGEX of
           Some fromMatch \<Rightarrow>
             (let result = parseFromImport doc fromMatch lineIndex lines
              in (nextLineIndex result,
                  (case import_found result of
                     Some i \<Rightarrow> imports @ [i]
                   | None \<Rightarrow> imports),
                  errors))
         | None \<Rightarrow>
             (case str_match ln MULTI_IMPORT_REGEX of
                Some multiMatch \<Rightarrow>
                  (case parseMultiImport doc multiMatch lineIndex of
                     Inr parsedImports \<Rightarrow> (lineIndex + 1, imports @ parsedImports, errors)
                   | Inl e \<Rightarrow> (lineIndex + 1, imports, errors @ [line_error lineIndex e]))
              | None \<Rightarrow>
                  (case str_match ln IMPORT_REGEX of
                     Some importMatch \<Rightarrow>
                       (let packageName = m_group_str importMatch 1 in
                        if \<not> isRelativeImport packageName then
                          (case getLineRange doc lineIndex of
                             Inr r \<Rightarrow>
                               (lineIndex + 1,
                                imports @
                                [\<lparr>packageName = packageName,
                                  importStatement = lines ! lineIndex,
                                  language = Python,
                                  range_loc = r,
                                  fileUri = uri doc,
                                  namedImports = None,
                                  isDefaultImport = None,
                                  isRequire = None\<rparr>],
                                errors)
                           | Inl e \<Rightarrow>
                               (lineIndex + 1, imports, errors @ [line_error lineIndex e]))
                        else (lineIndex + 1, imports, errors))
                   | None \<Rightarrow> (lineIndex + 1, imports, errors)))))"

text \<open>The loop \<open>while (lineIndex < lines.length)\<close> of \<open>PythonParser.parse\<close>.\<close>

function parse_loop ::
  "TextDocument \<Rightarrow> string list \<Rightarrow> nat \<Rightarrow> ImportInfo list \<Rightarrow> string list \<Rightarrow> ParseResult" where
  "parse_loop doc lines lineIndex imports errors =
     (if lineIndex < length lines then
        (case parse_step doc lines lineIndex imports errors of
           (lineIndex', imports', errors') \<Rightarrow> parse_loop doc lines lineIndex' imports' errors')
      else \<lparr>imports_list = imports, errors_list = errors\<rparr>)"
  by pat_completeness auto
termination
proof (relation "measure (\<lambda>(doc, lines, lineIndex, imports, errors). length lines - lineIndex)")
  have paren: "e \<le> fst (paren_loop ls e c)" for ls e c
    by (induction ls e c rule: paren_loop.induct) (subst paren_loop.simps, auto)
  have backslash: "e \<le> fst (backslash_loop ls e c)" for ls e c
    by (induction ls e c rule: backslash_loop.induct) (subst backslash_loop.simps, auto)
  have next_line: "i < nextLineIndex (parseFromImport d m i ls)" for d m i ls
  proof -
    have a: "i \<le> fst (backslash_loop ls i c)" for c
      by (rule backslash)
    have b: "i \<le> fst (backslash_loop ls (fst (paren_loop ls i c)) c')" for c c'
      using paren[of i ls c] backslash[of "fst (paren_loop ls i c)" ls c'] by linarith
    show ?thesis
      by (simp add: parseFromImport_def Let_def split_beta less_Suc_eq_le a b)
  qed
  have step: "i < fst (parse_step d ls i imps errs)" for d ls i imps errs
    by (simp add: parse_step_def Let_def next_line split: option.split sum.split)
  show "wf (measure (\<lambda>(doc, lines, lineIndex, imports, errors). length lines - lineIndex))"
    by simp
  show "((d, ls, i', imps', errs'), (d, ls, i, imps, errs))
        \<in> measure (\<lambda>(doc, lines, lineIndex, imports, errors). length lines - lineIndex)"
    if "i < length ls" and "(i', y) = parse_step d ls i imps errs" and "(imps', errs') = y"
    for d ls i imps errs i' imps' errs' y
  proof -
    have "i < i'"
      using step[of i d ls imps errs] that(2)[symmetric] by simp
    then show ?thesis using that(1) by simp
  qed
qed

declare parse_loop.simps [simp del]

text \<open>\<open>PythonParser.parse\<close>\<close>

definition PythonParser_parse :: "TextDocument \<Rightarrow> ParseResult" where
  "PythonParser_parse doc = parse_loop doc (split_chr CHR 0x0A (getText doc)) 0 [] []"

section \<open>The JavaScript and TypeScript parser (\<open>JsTsParser\<close>)\<close>

text \<open>
  \<open>ES6_IMPORT_REGEX\<close>: \<open>import\<close>, white space, then optionally a binding part that
  ends in \<open>from\<close>, then the quoted module path (group 4). The binding part is an
  optional word (group 1) with an optional comma, an optional brace block (group 2)
  and an optional comma followed by a word (group 3).
\<close>

definition ES6_IMPORT_REGEX :: re where
  "ES6_IMPORT_REGEX =
     seqs [Lit ''import'', Plus (Cls is_ws),
           Opt (seqs [Opt (seqs [Grp 1 (Plus (Cls is_word)),
                                 Opt (seqs [Star (Cls is_ws), Lit '','', Star (Cls is_ws)])]),
                      Opt (seqs [Lit ''{'', Grp 2 (Plus (Cls (\<lambda>c. c \<noteq> CHR ''}''))), Lit ''}'']),
                      Opt (seqs [Star (Cls is_ws), Lit '','', Star (Cls is_ws),
                                 Grp 3 (Plus (Cls is_word))]),
                      Plus (Cls is_ws), Lit ''from'', Plus (Cls is_ws)]),
           Cls is_quote,
           Grp 4 (Plus (Cls (\<lambda>c. \<not> is_quote c))),
           Cls is_quote]"

text \<open>
  \<open>REQUIRE_REGEX\<close>: \<open>const\<close>, \<open>let\<close> or \<open>var\<close>, a word (group 1) or a brace block
  (group 2), \<open>=\<close>, \<open>require\<close> and the quoted module path (group 3) in parentheses.
\<close>

definition REQUIRE_REGEX :: re where
  "REQUIRE_REGEX =
     seqs [Alt (Lit ''const'') (Alt (Lit ''let'') (Lit ''var'')), Plus (Cls is_ws),
           Alt (Grp 1 (Plus (Cls is_word)))
               (seqs [Lit ''{'', Grp 2 (Plus (Cls (\<lambda>c. c \<noteq> CHR ''}''))), Lit ''}'']),
           Star (Cls is_ws), Lit ''='', Star (Cls is_ws), Lit ''require'',
           Star (Cls is_ws), Lit [CHR 0x28], Star (Cls is_ws),
           Cls is_quote,
           Grp 3 (Plus (Cls (\<lambda>c. \<not> is_quote c))),
           Cls is_quote,
           Star (Cls is_ws), Lit [CHR 0x29]]"

text \<open>\<open>DYNAMIC_IMPORT_REGEX\<close>: \<open>import\<close> and the quoted module path (group 1) in parentheses.\<close>

definition DYNAMIC_IMPORT_REGEX :: re where
  "DYNAMIC_IMPORT_REGEX =
     seqs [Lit ''import'', Star (Cls is_ws), Lit [CHR 0x28], Star (Cls is_ws),
           Cls is_quote,
           Grp 1 (Plus (Cls (\<lambda>c. \<not> is_quote c))),
           Cls is_quote,
           Star (Cls is_ws), Lit [CHR 0x29]]"

text \<open>
  \<open>REEXPORT_REGEX\<close>: \<open>export\<close>, a star or a brace block, \<open>from\<close> and the quoted module
  path (group 1).
\<close>

definition REEXPORT_REGEX :: re where
  "REEXPORT_REGEX =
     seqs [Lit ''export'', Plus (Cls is_ws),
           Alt (Lit [CHR 0x2A])
               (seqs [Lit ''{'', Plus (Cls (\<lambda>c. c \<noteq> CHR ''}'')), Lit ''}'']),
           Plus (Cls is_ws), Lit ''from'', Plus (Cls is_ws),
           Cls is_quote,
           Grp 1 (Plus (Cls (\<lambda>c. \<not> is_quote c))),
           Cls is_quote]"

text \<open>\<open>JsTsParser.getLanguage\<close>\<close>

definition getLanguage :: "TextDocument \<Rightarrow> Language" where
  "getLanguage doc =
     (let langId = languageId doc in
      if langId = ''typescript'' \<or> langId = ''typescriptreact'' then TypeScript
      else JavaScript)"

text \<open>\<open>JsTsParser.parseNamedImports\<close>: the names before \<open>as\<close> of a comma list.\<close>

definition js_parseNamedImports :: "string \<Rightarrow> string list" where
  "js_parseNamedImports namedImportsStr =
     filter (\<lambda>name. length name > 0)
       (map name_before_as (split_chr CHR '','' namedImportsStr))"

text \<open>
  A captured string is truthy when it is defined and not empty: \<open>!!x\<close>, and the test of
  \<open>x ? a : b\<close>.
\<close>

definition truthy :: "string option \<Rightarrow> bool" where
  "truthy x = (case x of None \<Rightarrow> False | Some g \<Rightarrow> g \<noteq> [])"

definition match_range :: "TextDocument \<Rightarrow> rx_match \<Rightarrow> Range" where
  "match_range doc m = mk_Range (positionAt doc (m_index m)) (positionAt doc (m_end m))"

text \<open>
  The body of the loop of \<open>parseES6Imports\<close> for one match: nothing for a relative
  path, otherwise the record that is pushed.
\<close>

definition es6_record :: "TextDocument \<Rightarrow> rx_match \<Rightarrow> ImportInfo option" where
  "es6_record doc m =
     (let defaultImport = m_group m 1;
          namedImportsStr = m_group m 2;
          namespaceImport = m_group m 3;
          modulePath = m_group_str m 4
      in if isRelativeImport modulePath then None
         else Some
           \<lparr>packageName = getTopLevelPackage modulePath,
            importStatement = m_text m,
            language = getLanguage doc,
            range_loc = match_range doc m,
            fileUri = uri doc,
            namedImports =
              (if truthy namedImportsStr
               then Some (js_parseNamedImports (m_group_str m 2)) else None),
            isDefaultImport = Some (truthy defaultImport \<or> truthy namespaceImport),
            isRequire = Some False\<rparr>)"

definition require_record :: "TextDocument \<Rightarrow> rx_match \<Rightarrow> ImportInfo option" where
  "require_record doc m =
     (let defaultImport = m_group m 1;
          namedImportsStr = m_group m 2;
          modulePath = m_group_str m 3
      in if isRelativeImport modulePath then None
         else Some
           \<lparr>packageName = getTopLevelPackage modulePath,
            importStatement = m_text m,
            language = getLanguage doc,
            range_loc = match_range doc m,
            fileUri = uri doc,
            namedImports =
              (if truthy namedImportsStr
               then Some (js_parseNamedImports (m_group_str m 2)) else None),
            isDefaultImport = Some (truthy defaultImport),
            isRequire = Some True\<rparr>)"

text \<open>The records of \<open>parseDynamicImports\<close> and of \<open>parseReexports\<close> have the same shape.\<close>

definition path_only_record :: "TextDocument \<Rightarrow> rx_match \<Rightarrow> ImportInfo option" where
  "path_only_record doc m =
     (let modulePath = m_group_str m 1
      in if isRelativeImport modulePath then None
         else Some
           \<lparr>packageName = getTopLevelPackage modulePath,
            importStatement = m_text m,
            language = getLanguage doc,
            range_loc = match_range doc m,
            fileUri = uri doc,
            namedImports = None,
            isDefaultImport = None,
            isRequire = Some False\<rparr>)"

text \<open>
  The four scans. Each runs its pattern over the whole text and appends its records to
  the array it is given; \<open>None\<close> stands for a scan that does not return.
\<close>

definition parseES6Imports ::
  "TextDocument \<Rightarrow> string \<Rightarrow> ImportInfo list \<Rightarrow> ImportInfo list option" where
  "parseES6Imports doc text imports =
     map_option (\<lambda>ms. imports @ List.map_filter (es6_record doc) ms)
       (exec_all ES6_IMPORT_REGEX [] text)"

definition parseRequires ::
  "TextDocument \<Rightarrow> string \<Rightarrow> ImportInfo list \<Rightarrow> ImportInfo list option" where
  "parseRequires doc text imports =
     map_option (\<lambda>ms. imports @ List.map_filter (require_record doc) ms)
       (exec_all REQUIRE_REGEX [] text)"

definition parseDynamicImports ::
  "TextDocument \<Rightarrow> string \<Rightarrow> ImportInfo list \<Rightarrow> ImportInfo list option" where
  "parseDynamicImports doc text imports =
     map_option (\<lambda>ms. imports @ List.map_filter (path_only_record doc) ms)
       (exec_all DYNAMIC_IMPORT_REGEX [] text)"

definition parseReexports ::
  "TextDocument \<Rightarrow> string \<Rightarrow> ImportInfo list \<Rightarrow> ImportInfo list option" where
  "parseReexports doc text imports =
     map_option (\<lambda>ms. imports @ List.map_filter (path_only_record doc) ms)
       (exec_all REEXPORT_REGEX [] text)"

text \<open>
  \<open>JsTsParser.deduplicateImports\<close>: the \<open>Map\<close> keeps its keys in the order they were
  first set, and a key that is present is not set again.
\<close>

fun dedup_loop :: "ImportInfo list \<Rightarrow> (string \<times> ImportInfo) list \<Rightarrow> (string \<times> ImportInfo) list" where
  "dedup_loop [] seen = seen"
| "dedup_loop (imp # imps) seen =
     (let key = packageName imp in
      if map_of seen key = None then dedup_loop imps (seen @ [(key, imp)])
      else dedup_loop imps seen)"

definition deduplicateImports :: "ImportInfo list \<Rightarrow> ImportInfo list" where
  "deduplicateImports imports = map snd (dedup_loop imports [])"

text \<open>
  The four scans of \<open>JsTsParser.parse\<close> in their order. Nothing in them throws, so the
  error list stays empty.
\<close>

definition js_scan :: "TextDocument \<Rightarrow> ImportInfo list option" where
  "js_scan doc =
     (let text = getText doc in
      Option.bind (parseES6Imports doc text []) (\<lambda>i1.
      Option.bind (parseRequires doc text i1) (\<lambda>i2.
      Option.bind (parseDynamicImports doc text i2) (\<lambda>i3.
      parseReexports doc text i3))))"

text \<open>\<open>JsTsParser.parse\<close>\<close>

definition JsTsParser_parse :: "TextDocument \<Rightarrow> ParseResult option" where
  "JsTsParser_parse doc =
     map_option (\<lambda>imports. \<lparr>imports_list = deduplicateImports imports, errors_list = []\<rparr>)
       (js_scan doc)"

section \<open>The entry point (\<open>parsers/index\<close>)\<close>

datatype Parser = PythonParser | JsTsParser

text \<open>\<open>getParser\<close>\<close>

definition getParser :: "TextDocument \<Rightarrow> Parser option" where
  "getParser doc =
     (let languageId = languageId doc in
      if languageId = ''python'' then Some PythonParser
      else if languageId = ''javascript'' \<or> languageId = ''typescript'' \<or>
              languageId = ''javascriptreact'' \<or> languageId = ''typescriptreact''
      then Some JsTsParser
      else None)"

text \<open>\<open>parseImports\<close>; \<open>None\<close> stands for a call that does not return.\<close>

definition parseImports :: "TextDocument \<Rightarrow> ParseResult option" where
  "parseImports doc =
     (case getParser doc of
        None \<Rightarrow>
          Some \<lparr>imports_list = [],
                errors_list = [''Unsupported language: '' @ languageId doc]\<rparr>
      | Some PythonParser \<Rightarrow> Some (PythonParser_parse doc)
      | Some JsTsParser \<Rightarrow> JsTsParser_parse doc)"

text \<open>\<open>isSupportedLanguage\<close>\<close>

definition isSupportedLanguage :: "TextDocument \<Rightarrow> bool" where
  "isSupportedLanguage doc =
     (languageId doc \<in> set [''python'', ''javascript'', ''typescript'',
                              ''javascriptreact'', ''typescriptreact''])"

section \<open>The usage tracker (\<open>PythonUsageTracker\<close>)\<close>

datatype UsageType = function_call | attribute_access | class_instantiation | reference

record UsageLocation =
  usage_range :: Range
  usage_identifier :: string
  usageType :: UsageType

record UsageInfo =
  importInfo :: ImportInfo
  usageLocations :: "UsageLocation list"

record UsageTrackingResult =
  usages :: "UsageInfo list"
  totalUsageCount :: nat

text \<open>
  \<open>escapeRegex\<close> puts a backslash before every character that is special in a
  pattern, so that the pattern built from its result matches the given text literally:
  \<open>new RegExp(escapeRegex(str))\<close> is \<open>Lit str\<close>.
\<close>

definition escaped_literal :: "string \<Rightarrow> re" where
  "escaped_literal str = Lit str"

text \<open>The pattern \<open>import\s+[\w.]+\s+as\s+(\w+)\<close> of \<open>getIdentifiersFromImport\<close>.\<close>

definition ALIAS_REGEX :: re where
  "ALIAS_REGEX =
     seqs [Lit ''import'', Plus (Cls is_ws),
           Plus (Cls (\<lambda>c. is_word c \<or> c = CHR ''.'')),
           Plus (Cls is_ws), Lit ''as'', Plus (Cls is_ws),
           Grp 1 (Plus (Cls is_word))]"

text \<open>The pattern \<open>\b<name>\s+as\s+(\w+)\<close> built for one named import.\<close>

definition named_alias_regex :: "string \<Rightarrow> re" where
  "named_alias_regex namedImport =
     seqs [WordB, escaped_literal namedImport,
           Plus (Cls is_ws), Lit ''as'', Plus (Cls is_ws),
           Grp 1 (Plus (Cls is_word))]"

text \<open>\<open>PythonUsageTracker.getIdentifiersFromImport\<close>\<close>

definition getIdentifiersFromImport :: "ImportInfo \<Rightarrow> string list" where
  "getIdentifiersFromImport imp =
     (case str_match (importStatement imp) ALIAS_REGEX of
        Some aliasMatch \<Rightarrow> [m_group_str aliasMatch 1]
      | None \<Rightarrow>
          (if (case namedImports imp of None \<Rightarrow> False | Some ns \<Rightarrow> length ns > 0) then
             map (\<lambda>namedImport.
                    (case str_match (importStatement imp) (named_alias_regex namedImport) of
                       Some namedAliasMatch \<Rightarrow> m_group_str namedAliasMatch 1
                     | None \<Rightarrow> namedImport))
                 (case namedImports imp of None \<Rightarrow> [] | Some ns \<Rightarrow> ns)
           else [last (split_chr CHR ''.'' (packageName imp))]))"

text \<open>
  The characters of the class that must follow an identifier, after optional white
  space, for the occurrence to be a usage.
\<close>

definition is_follow :: "char \<Rightarrow> bool" where
  "is_follow c =
     (is_ws c \<or>
      c \<in> set [CHR ''.'', CHR 0x28, CHR ''['', CHR '','', CHR 0x29, CHR '']'', CHR '':'',
                CHR ''}'', CHR ''='', CHR ''+'', CHR ''-'', CHR 0x2A, CHR ''/'', CHR ''<'',
                CHR ''>'', CHR ''!'', CHR ''&'', CHR ''|'', CHR ''^'', CHR ''%'', CHR ''@''])"

text \<open>
  The pattern of \<open>findIdentifierUsages\<close>: no word character before the identifier, and
  after it optional white space and a follow character, neither of them consumed.
\<close>

definition usage_pattern :: "string \<Rightarrow> re" where
  "usage_pattern ident =
     seqs [NotBehind is_word, escaped_literal ident,
           Ahead (seqs [Star (Cls is_ws), Cls is_follow])]"

text \<open>\<open>PythonUsageTracker.isWithinImportStatement\<close>\<close>

definition isWithinImportStatement :: "Range \<Rightarrow> ImportInfo \<Rightarrow> bool" where
  "isWithinImportStatement r imp = contains_range (range_loc imp) r"

text \<open>
  \<open>PythonUsageTracker.isWithinCommentOrString\<close>: the line of the position, a hash sign
  anywhere before the position on it, and the parity of the quotes before the position.
\<close>

definition isWithinCommentOrString :: "nat \<Rightarrow> string \<Rightarrow> bool" where
  "isWithinCommentOrString position text =
     (let lineStart = lastIndexOf text (CHR 0x0A) (int position - 1) + 1;
          lineEnd = indexOf_from text (CHR 0x0A) position;
          ln = substring text lineStart (if lineEnd = - 1 then int (length text) else lineEnd);
          posInLine = int position - lineStart;
          commentStart = indexOf ln CHR ''#''
      in if commentStart \<noteq> - 1 \<and> posInLine > commentStart then True
         else
           (let beforePos = substring ln 0 posInLine;
                singleQuotes = int (count_matches beforePos (Lit [CHR 0x27]));
                doubleQuotes = int (count_matches beforePos (Lit [CHR 0x22]));
                tripleDoubleQuotes = int (count_matches beforePos (Lit [CHR 0x22, CHR 0x22, CHR 0x22]));
                tripleSingleQuotes = int (count_matches beforePos (Lit [CHR 0x27, CHR 0x27, CHR 0x27]))
            in if (singleQuotes - tripleSingleQuotes * 3) mod 2 \<noteq> 0 then True
               else if (doubleQuotes - tripleDoubleQuotes * 3) mod 2 \<noteq> 0 then True
               else False))"

text \<open>
  Case mapping of one character. The tracker applies it to the first character of a
  match of \<open>\w+\<close> only, where it is the mapping of the ASCII letters.
\<close>

definition toUpperCase :: "char \<Rightarrow> char" where
  "toUpperCase c =
     (let n = (of_char c :: nat) in if 97 \<le> n \<and> n \<le> 122 then char_of (n - 32) else c)"

definition toLowerCase :: "char \<Rightarrow> char" where
  "toLowerCase c =
     (let n = (of_char c :: nat) in if 65 \<le> n \<and> n \<le> 90 then char_of (n + 32) else c)"

text \<open>The pattern \<open>(\w+)\s*$\<close> of \<open>determineUsageType\<close>.\<close>

definition TRAILING_WORD_REGEX :: re where
  "TRAILING_WORD_REGEX = seqs [Grp 1 (Plus (Cls is_word)), Star (Cls is_ws), Eol]"

text \<open>\<open>PythonUsageTracker.determineUsageType\<close>\<close>

definition determineUsageType :: "string \<Rightarrow> nat \<Rightarrow> UsageType" where
  "determineUsageType text posAfterIdentifier =
     (let nextChars =
            trim (substring text (int posAfterIdentifier) (int posAfterIdentifier + 10))
      in if startsWith nextChars [CHR 0x28] then
           (let prevText = substring text (max 0 (int posAfterIdentifier - 50))
                                          (int posAfterIdentifier)
            in case str_match prevText TRAILING_WORD_REGEX of
                 Some identifierMatch \<Rightarrow>
                   (case m_group_str identifierMatch 1 of
                      c # _ \<Rightarrow>
                        if c = toUpperCase c \<and> c \<noteq> toLowerCase c then class_instantiation
                        else function_call
                    | [] \<Rightarrow> function_call)
               | None \<Rightarrow> function_call)
         else if startsWith nextChars ''.'' then attribute_access
         else reference)"

text \<open>
  The body of the loop of \<open>findIdentifierUsages\<close> for one match: nothing when the
  match is skipped, otherwise the location that is pushed.
\<close>

definition usage_of_match ::
  "TextDocument \<Rightarrow> string \<Rightarrow> string \<Rightarrow> ImportInfo \<Rightarrow> rx_match \<Rightarrow> UsageLocation option" where
  "usage_of_match doc ident text imp m =
     (let startPos = positionAt doc (m_index m);
          endPos = positionAt doc (m_index m + length ident);
          r = mk_Range startPos endPos
      in if isWithinImportStatement r imp then None
         else if isWithinCommentOrString (m_index m) text then None
         else Some \<lparr>usage_range = r,
                    usage_identifier = ident,
                    usageType = determineUsageType text (m_index m + length ident)\<rparr>)"

text \<open>\<open>PythonUsageTracker.findIdentifierUsages\<close>; \<open>None\<close> stands for a scan that does not return.\<close>

definition findIdentifierUsages ::
  "TextDocument \<Rightarrow> string \<Rightarrow> string \<Rightarrow> ImportInfo \<Rightarrow> UsageLocation list option" where
  "findIdentifierUsages doc ident text imp =
     (if ident = [] then Some []
      else map_option (List.map_filter (usage_of_match doc ident text imp))
             (exec_all (usage_pattern ident) [] text))"

text \<open>\<open>PythonUsageTracker.findUsagesForImport\<close>\<close>

fun usages_of_identifiers ::
  "TextDocument \<Rightarrow> string \<Rightarrow> ImportInfo \<Rightarrow> string list \<Rightarrow> UsageLocation list \<Rightarrow>
   UsageLocation list option" where
  "usages_of_identifiers doc text imp [] locations = Some locations"
| "usages_of_identifiers doc text imp (ident # idents) locations =
     (case findIdentifierUsages doc ident text imp of
        None \<Rightarrow> None
      | Some foundLocations \<Rightarrow>
          usages_of_identifiers doc text imp idents (locations @ foundLocations))"

definition findUsagesForImport :: "TextDocument \<Rightarrow> ImportInfo \<Rightarrow> UsageLocation list option" where
  "findUsagesForImport doc imp =
     usages_of_identifiers doc (getText doc) imp (getIdentifiersFromImport imp) []"

text \<open>\<open>PythonUsageTracker.trackUsages\<close>, with the array and the counter it fills.\<close>

fun trackUsages_loop ::
  "TextDocument \<Rightarrow> ImportInfo list \<Rightarrow> UsageInfo list \<Rightarrow> nat \<Rightarrow> UsageTrackingResult option" where
  "trackUsages_loop doc [] us count = Some \<lparr>usages = us, totalUsageCount = count\<rparr>"
| "trackUsages_loop doc (imp # imps) us count =
     (case findUsagesForImport doc imp of
        None \<Rightarrow> None
      | Some locs \<Rightarrow>
          if length locs > 0
          then trackUsages_loop doc imps
                 (us @ [\<lparr>importInfo = imp, usageLocations = locs\<rparr>])
                 (count + length locs)
          else trackUsages_loop doc imps us count)"

definition trackUsages :: "TextDocument \<Rightarrow> ImportInfo list \<Rightarrow> UsageTrackingResult option" where
  "trackUsages doc imports = trackUsages_loop doc imports [] 0"

text \<open>\<open>trackPythonUsages\<close>\<close>

definition trackPythonUsages ::
  "TextDocument \<Rightarrow> ImportInfo list \<Rightarrow> UsageTrackingResult option" where
  "trackPythonUsages doc imports = trackUsages doc imports"

section \<open>Notions used to state the properties\<close>

text \<open>
  The least number of characters a match of a pattern consumes. A global scan with a
  pattern of positive \<open>min_len\<close> moves on at every match.
\<close>

fun min_len :: "re \<Rightarrow> nat" where
  "min_len (Cls P) = 1"
| "min_len (Lit l) = length l"
| "min_len (Seq r1 r2) = min_len r1 + min_len r2"
| "min_len (Alt r1 r2) = min (min_len r1) (min_len r2)"
| "min_len (Opt r) = 0"
| "min_len (Star r) = 0"
| "min_len (Grp n r) = min_len r"
| "min_len Bol = 0"
| "min_len Eol = 0"
| "min_len (NotBehind P) = 0"
| "min_len (Ahead r) = 0"
| "min_len WordB = 0"

text \<open>The text a cursor stands in.\<close>

definition whole_text :: "mstate \<Rightarrow> string" where
  "whole_text s = rev (consumed s) @ remaining s"

text \<open>A document with a language tag and a text.\<close>

definition document :: "string \<Rightarrow> string \<Rightarrow> TextDocument" where
  "document lang text = \<lparr>languageId = lang, uri = ''file:///doc'', getText = text\<rparr>"

text \<open>
  Two ranges overlap when they share a character: each starts before the other ends.
\<close>

definition ranges_overlap :: "Range \<Rightarrow> Range \<Rightarrow> bool" where
  "ranges_overlap a b =
     (isBefore (range_start a) (range_end b) \<and> isBefore (range_start b) (range_end a))"

text \<open>The ranges and the package names of a parse result, in order.\<close>

definition import_ranges :: "ParseResult \<Rightarrow> Range list" where
  "import_ranges r = map range_loc (imports_list r)"

definition import_names :: "ParseResult \<Rightarrow> string list" where
  "import_names r = map packageName (imports_list r)"

text \<open>
  Two records of one Python scan, the first earlier in the list: they are separated
  when they carry the same statement with the same range, or the first ends on a line
  before the line the second starts on.
\<close>

definition separated :: "ImportInfo \<Rightarrow> ImportInfo \<Rightarrow> bool" where
  "separated a b =
     ((range_loc a = range_loc b \<and> importStatement a = importStatement b) \<or>
      line (range_end (range_loc a)) < line (range_start (range_loc b)))"

text \<open>The location lists of a tracking result, in order.\<close>

definition usage_lists :: "UsageTrackingResult \<Rightarrow> UsageLocation list list" where
  "usage_lists r = map usageLocations (usages r)"

text \<open>
  The comment and string test in the words of the specification. \<open>line_prefix\<close> is the
  part of the line of a position that lies before the position.
\<close>

definition line_prefix :: "nat \<Rightarrow> string \<Rightarrow> string" where
  "line_prefix pos text = rev (takeWhile (\<lambda>c. c \<noteq> CHR 0x0A) (rev (take pos text)))"

definition count_chr :: "char \<Rightarrow> string \<Rightarrow> nat" where
  "count_chr c s = length (filter (\<lambda>x. x = c) s)"

text \<open>The triple quotes of a text, counted from the left without overlap.\<close>

fun count_triples :: "char \<Rightarrow> string \<Rightarrow> nat" where
  "count_triples c (x # y # z # rest) =
     (if x = c \<and> y = c \<and> z = c then Suc (count_triples c rest)
      else count_triples c (y # z # rest))"
| "count_triples c [] = 0"
| "count_triples c [x] = 0"
| "count_triples c [x, y] = 0"

definition odd_quotes :: "char \<Rightarrow> string \<Rightarrow> bool" where
  "odd_quotes c s = odd (int (count_chr c s) - 3 * int (count_triples c s))"

text \<open>A position is inside a string literal when the quotes before it on its line are odd.\<close>

definition in_string :: "string \<Rightarrow> bool" where
  "in_string s = (odd_quotes (CHR 0x27) s \<or> odd_quotes (CHR 0x22) s)"

text \<open>
  The test as claim C4 states it: a hash sign before the position on its line that is
  outside a string literal and has no backslash before it, or a position inside a string
  literal.
\<close>

definition comment_hash_before :: "string \<Rightarrow> bool" where
  "comment_hash_before s =
     list_ex (\<lambda>i. s ! i = CHR ''#'' \<and> \<not> in_string (take i s) \<and>
                   (i = 0 \<or> s ! (i - 1) \<noteq> CHR 0x5C))
       [0..<length s]"

definition discard_as_claimed :: "nat \<Rightarrow> string \<Rightarrow> bool" where
  "discard_as_claimed pos text =
     (comment_hash_before (line_prefix pos text) \<or> in_string (line_prefix pos text))"

text \<open>The test with any hash sign before the position on its line.\<close>

definition discard_by_first_hash :: "nat \<Rightarrow> string \<Rightarrow> bool" where
  "discard_by_first_hash pos text =
     (CHR ''#'' \<in> set (line_prefix pos text) \<or> in_string (line_prefix pos text))"

text \<open>The named imports of the records of a parse result, in order.\<close>

definition import_named :: "ParseResult \<Rightarrow> string list option list" where
  "import_named r = map namedImports (imports_list r)"

















subsection \<open>Texts of the examples\<close>

text \<open>An aliased import and an attribute access through the alias.\<close>

definition numpy_text :: string where
  "numpy_text = ''import numpy as np'' @ [CHR 0x0A] @ ''y = np.array(x)''"

text \<open>Two imports from the same package, the second through a sub-path.\<close>

definition twice_text :: string where
  "twice_text = ''import a from '' @ [CHR 0x27] @ ''x'' @ [CHR 0x27] @ ''; import b from '' @ [CHR 0x27] @ ''x/y'' @ [CHR 0x27]"

text \<open>A multi-import line.\<close>

definition multi_text :: string where
  "multi_text = ''import a, b''"

text \<open>A multi-import line followed by a simple import.\<close>

definition three_text :: string where
  "three_text = ''import a, b'' @ [CHR 0x0A] @ ''import c''"

text \<open>A dynamic import inside the braces of an import statement.\<close>

definition nested_text :: string where
  "nested_text = ''import { import('' @ [CHR 0x27] @ ''b'' @ [CHR 0x27, CHR 0x29] @ '' } from '' @ [CHR 0x27] @ ''a'' @ [CHR 0x27]"

text \<open>An identifier that ends a line closed by a line feed.\<close>

definition eol_text :: string where
  "eol_text = ''import os'' @ [CHR 0x0A] @ ''x = os'' @ [CHR 0x0A]"

text \<open>A hash sign inside a string literal, before an identifier on the same line.\<close>

definition hash_text :: string where
  "hash_text = ''import os'' @ [CHR 0x0A] @
               ''x = '' @ [CHR 0x22] @ ''#'' @ [CHR 0x22] @ ''; os.path''"




definition backslash_text :: string where
  "backslash_text = ''from X import a, '' @ [CHR 0x5C, CHR 0x0A] @ ''    b as c''"




section \<open>Properties of the string helpers\<close>

lemma split_chr_nonempty: "split_chr c s \<noteq> []"
  by (induction s) (auto split: list.splits)

lemma split_chr_hd: "hd (split_chr c s) = takeWhile (\<lambda>x. x \<noteq> c) s"
  by (induction s) (auto split: list.splits simp: split_chr_nonempty)

lemma split_chr_no_sep: "c \<notin> set s \<Longrightarrow> split_chr c s = [s]"
  by (induction s) (auto split: list.splits)

lemma split_chr_append: "c \<notin> set a \<Longrightarrow> split_chr c (a @ c # b) = a # split_chr c b"
  by (induction a) (auto split: list.splits)

lemma split_chr_pieces: "p \<in> set (split_chr c s) \<Longrightarrow> c \<notin> set p"
  by (induction s arbitrary: p) (auto split: list.splits if_splits)

lemma indexOf_absent: "c \<notin> set s \<Longrightarrow> indexOf s c = - 1"
  by (auto simp: indexOf_def split: list.splits)

lemma indexOf_present:
  "c \<in> set s \<Longrightarrow> indexOf s c = int (length (takeWhile (\<lambda>x. x \<noteq> c) s))"
  by (auto simp: indexOf_def split: list.splits)

lemma substring_prefix: "0 \<le> k \<Longrightarrow> substring s 0 k = take (nat k) s"
  by (simp add: substring_def Let_def min_def max_def)

lemma startsWith_single: "startsWith s [c] = (s \<noteq> [] \<and> hd s = c)"
  by (cases s) (auto simp: startsWith_def)

section \<open>Properties of documents\<close>

lemma length_split_chr:
  "length (split_chr c s) = Suc (length (filter (\<lambda>x. x = c) s))"
proof (induction s)
  case Nil
  then show ?case by simp
next
  case (Cons x xs)
  then show ?case by (cases "split_chr c xs") auto
qed

text \<open>The position of an offset lies on a line of the document, within that line.\<close>

lemma positionAt_line: "line (positionAt doc n) < length (doc_lines doc)"
proof -
  have "length (filter (\<lambda>c. c = CHR 0x0A) (take n (getText doc))) \<le>
        length (filter (\<lambda>c. c = CHR 0x0A) (take n (getText doc) @ drop n (getText doc)))"
    unfolding filter_append by simp
  then show ?thesis
    by (simp add: positionAt_def Let_def doc_lines_def length_split_chr)
qed

lemma positionAt_character:
  "character (positionAt doc n) \<le> length (doc_lines doc ! line (positionAt doc n))"
  by (simp add: positionAt_def Let_def)

section \<open>Properties of the package identity resolver\<close>

lemma parts_case:
  "(if 2 \<le> length ps then (ps ! 0) @ sep @ (ps ! 1) else d) =
   (case ps of a # b # _ \<Rightarrow> a @ sep @ b | _ \<Rightarrow> d)"
  by (cases ps; simp split: list.splits)

lemma getTopLevelPackage_guarded: "getTopLevelPackage p = spec_resolve_guarded p"
proof (cases "p \<noteq> [] \<and> hd p = CHR ''@''")
  case True
  then show ?thesis
    by (simp add: getTopLevelPackage_def spec_resolve_guarded_def startsWith_single
        segments_def Let_def parts_case)
next
  case False
  note nscoped = this
  show ?thesis
  proof (cases "CHR ''/'' \<in> set p")
    case True
    then have ix: "indexOf p CHR ''/'' = int (length (takeWhile (\<lambda>x. x \<noteq> CHR ''/'') p))"
      by (rule indexOf_present)
    have pos: "(0 < length (takeWhile (\<lambda>x. x \<noteq> CHR ''/'') p)) = (hd p \<noteq> CHR ''/'')"
      using True by (cases p) auto
    show ?thesis using nscoped True ix pos
      by (auto simp: getTopLevelPackage_def spec_resolve_guarded_def startsWith_single
          Let_def substring_prefix takeWhile_eq_take[symmetric])
  next
    case False
    then show ?thesis using nscoped
      by (auto simp: getTopLevelPackage_def spec_resolve_guarded_def startsWith_single
          Let_def indexOf_absent)
  qed
qed

lemma spec_resolve_guarded_idem:
  "spec_resolve_guarded (spec_resolve_guarded p) = spec_resolve_guarded p"
proof (cases "p \<noteq> [] \<and> hd p = CHR ''@''")
  case True
  show ?thesis
  proof (cases "segments p")
    case Nil
    then show ?thesis using True by (simp add: spec_resolve_guarded_def)
  next
    case (Cons a rest)
    note c1 = this
    show ?thesis
    proof (cases rest)
      case Nil
      then show ?thesis using True c1 by (simp add: spec_resolve_guarded_def)
    next
      case (Cons b rest')
      have a: "a = takeWhile (\<lambda>x. x \<noteq> CHR ''/'') p"
        using split_chr_hd[of "CHR ''/''" p] c1 by (simp add: segments_def)
      have a_ne: "a \<noteq> [] \<and> hd a = CHR ''@''"
        using True a by (cases p) auto
      have na: "CHR ''/'' \<notin> set a"
        using split_chr_pieces[of a "CHR ''/''" p] c1 by (simp add: segments_def)
      have nb: "CHR ''/'' \<notin> set b"
        using split_chr_pieces[of b "CHR ''/''" p] c1 Cons by (simp add: segments_def)
      have out: "spec_resolve_guarded p = a @ ''/'' @ b"
        using True c1 Cons by (simp add: spec_resolve_guarded_def)
      have seg: "segments (a @ ''/'' @ b) = [a, b]"
        using na nb by (simp add: segments_def split_chr_append split_chr_no_sep)
      have "spec_resolve_guarded (a @ ''/'' @ b) = a @ ''/'' @ b"
        using a_ne seg by (simp add: spec_resolve_guarded_def)
      then show ?thesis using out by simp
    qed
  qed
next
  case False
  note nscoped = this
  show ?thesis
  proof (cases "CHR ''/'' \<in> set p \<and> hd p \<noteq> CHR ''/''")
    case True
    let ?q = "takeWhile (\<lambda>x. x \<noteq> CHR ''/'') p"
    have out: "spec_resolve_guarded p = ?q"
      using nscoped True by (auto simp: spec_resolve_guarded_def)
    have nq: "CHR ''/'' \<notin> set ?q"
      by (auto dest: set_takeWhileD)
    have hq: "?q \<noteq> [] \<longrightarrow> hd ?q = hd p"
      by (cases p) auto
    have "spec_resolve_guarded ?q = ?q"
      using nq hq nscoped
      by (cases "?q = []")
        (auto simp: spec_resolve_guarded_def simp del: takeWhile_eq_Nil_iff)
    then show ?thesis using out by simp
  next
    case False
    then have "spec_resolve_guarded p = p"
      using nscoped by (auto simp: spec_resolve_guarded_def)
    then show ?thesis by simp
  qed
qed

lemma spec_resolve_guarded_eq:
  "p = [] \<or> hd p \<noteq> CHR ''/'' \<Longrightarrow> spec_resolve_guarded p = spec_resolve p"
  by (auto simp: spec_resolve_guarded_def spec_resolve_def)

lemma not_relative_no_leading_slash:
  "\<not> isRelativeImport p \<Longrightarrow> p = [] \<or> hd p \<noteq> CHR ''/''"
  by (auto simp: isRelativeImport_def startsWith_single)

text \<open>
  The resolver is a protected method of \<open>BaseParser\<close>. Its only callers are the four
  scans of \<open>JsTsParser\<close>, and each of them tests \<open>isRelativeImport\<close> first and skips the
  match when the path is relative: the resolver never sees a path that begins with a dot
  or a slash. The package name of every record of these scans is the result of the rule
  of the specification on the module path of the match.
\<close>

lemma resolver_callers:
  "es6_record doc m = Some imp \<Longrightarrow>
     \<not> isRelativeImport (m_group_str m 4) \<and> packageName imp = spec_resolve (m_group_str m 4)"
  "require_record doc m = Some imp \<Longrightarrow>
     \<not> isRelativeImport (m_group_str m 3) \<and> packageName imp = spec_resolve (m_group_str m 3)"
  "path_only_record doc m = Some imp \<Longrightarrow>
     \<not> isRelativeImport (m_group_str m 1) \<and> packageName imp = spec_resolve (m_group_str m 1)"
  by (auto simp: es6_record_def require_record_def path_only_record_def Let_def
      getTopLevelPackage_guarded spec_resolve_guarded_eq
      dest!: not_relative_no_leading_slash split: if_splits)

text \<open>
  A path with a leading slash is relative and is not resolved. The guard
  \<open>slashIndex > 0\<close> of the code would return it whole, where the rule read on it would
  give the empty text before the slash.
\<close>

lemma resolver_leading_slash:
  "isRelativeImport ''/foo'' \<and> getTopLevelPackage ''/foo'' = ''/foo'' \<and>
   spec_resolve ''/foo'' = []"
  by (simp add: isRelativeImport_def getTopLevelPackage_def startsWith_def indexOf_def
      substring_def spec_resolve_def)

text \<open>
  Claim C7: for every module path that reaches the resolver, that is every path that
  is not relative, the resolver returns the first two slash-delimited segments joined
  by a slash when the path begins with \<open>@\<close> (the path unchanged when it has fewer than
  two segments), otherwise the text before the first slash when there is a slash, and
  otherwise the whole path. \<open>@angular/core\<close> maps to itself and \<open>lodash/map\<close> to
  \<open>lodash\<close>.
\<close>

theorem resolver_matches_spec:
  "\<not> isRelativeImport p \<Longrightarrow>
   getTopLevelPackage p = spec_resolve p \<and>
   getTopLevelPackage ''@angular/core'' = ''@angular/core'' \<and>
   getTopLevelPackage ''lodash/map'' = ''lodash''"
proof -
  assume "\<not> isRelativeImport p"
  then have "getTopLevelPackage p = spec_resolve p"
    by (simp add: getTopLevelPackage_guarded spec_resolve_guarded_eq
        not_relative_no_leading_slash)
  moreover have "getTopLevelPackage ''@angular/core'' = ''@angular/core''"
    by (simp add: getTopLevelPackage_def startsWith_def)
  moreover have "getTopLevelPackage ''lodash/map'' = ''lodash''"
    by (simp add: getTopLevelPackage_def startsWith_def indexOf_def substring_def)
  ultimately show ?thesis by simp
qed

text \<open>
  The theorem of claim C7 at the paths \<open>lodash/map\<close> and \<open>@angular/core/testing\<close>.
\<close>

theorem resolver_matches_spec_witness:
  "\<not> isRelativeImport ''lodash/map'' \<and>
   getTopLevelPackage ''lodash/map'' = spec_resolve ''lodash/map'' \<and>
   spec_resolve ''lodash/map'' = ''lodash'' \<and>
   \<not> isRelativeImport ''@angular/core/testing'' \<and>
   getTopLevelPackage ''@angular/core/testing'' = spec_resolve ''@angular/core/testing'' \<and>
   spec_resolve ''@angular/core/testing'' = ''@angular/core''"
  using resolver_matches_spec[of "''lodash/map''"]
    resolver_matches_spec[of "''@angular/core/testing''"]
  by (simp add: isRelativeImport_def startsWith_def spec_resolve_def segments_def)

text \<open>
  Claim C9: resolving the output of the resolver again gives the same string, for
  every module path.
\<close>

theorem resolver_idempotent:
  "getTopLevelPackage (getTopLevelPackage p) = getTopLevelPackage p"
  by (simp add: getTopLevelPackage_guarded spec_resolve_guarded_idem)

section \<open>Properties of the matcher\<close>

lemma whole_text_advance: "n \<le> length (remaining s) \<Longrightarrow> whole_text (advance n s) = whole_text s"
  by (simp add: whole_text_def advance_def)

lemma whole_text_advance': "whole_text (advance n s) = whole_text s"
  by (simp add: whole_text_def advance_def)

lemma rmatch_StarD:
  "m \<in> set (rmatch (Star r) s) \<Longrightarrow>
   m = s \<or> (\<exists>s' \<in> set (rmatch r s).
      length (remaining s') < length (remaining s) \<and> m \<in> set (rmatch (Star r) s'))"
  by (subst (asm) rmatch.simps(6)) (auto split: if_splits)

lemma rmatch_whole_text: "m \<in> set (rmatch r s) \<Longrightarrow> whole_text m = whole_text s"
proof (induction r s arbitrary: m rule: rmatch.induct)
  case (1 P s)
  then show ?case by (auto simp: whole_text_advance' split: list.splits if_splits)
next
  case (2 l s)
  then show ?case by (auto simp: whole_text_advance' split: if_splits)
next
  case (3 r1 r2 s)
  then show ?case by auto
next
  case (6 r s)
  from 6(3) have "m = s \<or> (\<exists>s' \<in> set (rmatch r s).
       length (remaining s') < length (remaining s) \<and> m \<in> set (rmatch (Star r) s'))"
    by (rule rmatch_StarD)
  then show ?case using 6(1,2) by auto
next
  case (7 n r s)
  then show ?case by (auto simp: whole_text_def)
next
  case (10 P s)
  then show ?case by (auto split: list.splits if_splits)
next
  case (11 r s)
  then show ?case by (auto simp: whole_text_def split: list.splits)
qed (auto split: if_splits)

lemma rmatch_min_len:
  "m \<in> set (rmatch r s) \<Longrightarrow> length (remaining m) + min_len r \<le> length (remaining s)"
proof (induction r s arbitrary: m rule: rmatch.induct)
  case (1 P s)
  then show ?case by (cases "remaining s") (auto simp: advance_def split: if_splits)
next
  case (2 l s)
  then have "take (length l) (remaining s) = l" and m: "m = advance (length l) s"
    by (auto split: if_splits)
  then have "min (length (remaining s)) (length l) = length l"
    by (metis length_take)
  with m show ?case by (simp add: advance_def)
next
  case (3 r1 r2 s)
  then obtain s' where s': "s' \<in> set (rmatch r1 s)" "m \<in> set (rmatch r2 s')" by auto
  from 3(1)[OF s'(1)] 3(2)[OF s'(1) s'(2)] show ?case by simp
next
  case (4 r1 r2 s)
  then have "m \<in> set (rmatch r1 s) \<or> m \<in> set (rmatch r2 s)" by simp
  then show ?case using 4(1)[of m] 4(2)[of m] by auto
next
  case (5 r s)
  then have "m = s \<or> m \<in> set (rmatch r s)" by auto
  then show ?case using 5(1)[of m] by auto
next
  case (6 r s)
  from 6(3) have "m = s \<or> (\<exists>s' \<in> set (rmatch r s).
       length (remaining s') < length (remaining s) \<and> m \<in> set (rmatch (Star r) s'))"
    by (rule rmatch_StarD)
  then show ?case
  proof
    assume "m = s" then show ?thesis by simp
  next
    assume "\<exists>s' \<in> set (rmatch r s).
       length (remaining s') < length (remaining s) \<and> m \<in> set (rmatch (Star r) s')"
    then obtain s' where s': "s' \<in> set (rmatch r s)"
      "length (remaining s') < length (remaining s)" "m \<in> set (rmatch (Star r) s')" by blast
    from 6(2)[OF s'(1) s'(2) s'(3)] s'(2) show ?thesis by simp
  qed
next
  case (7 n r s)
  then obtain s' where "s' \<in> set (rmatch r s)" "remaining m = remaining s'" by auto
  with 7(1)[of s'] show ?case by simp
next
  case (8 s)
  then show ?case by (auto split: if_splits)
next
  case (9 s)
  then show ?case by (auto split: if_splits)
next
  case (10 P s)
  then show ?case by (auto split: list.splits if_splits)
next
  case (11 r s)
  then show ?case by (auto split: list.splits)
next
  case (12 s)
  then show ?case by (auto split: if_splits)
qed

lemma exec_from_Some:
  "exec_from r bef rest = Some m \<Longrightarrow>
   \<exists>pre post. rest = pre @ post \<and> m_index m = length bef + length pre \<and>
      rmatch r (start_state (rev pre @ bef) post) \<noteq> [] \<and>
      snd m = hd (rmatch r (start_state (rev pre @ bef) post))"
proof (induction rest arbitrary: bef)
  case Nil
  then show ?case by (auto simp: m_index_def split: list.splits)
next
  case (Cons c cs)
  show ?case
  proof (cases "rmatch r (start_state bef (c # cs))")
    case Nil
    with Cons.prems have "exec_from r (c # bef) cs = Some m" by simp
    from Cons.IH[OF this] obtain pre post where
      "cs = pre @ post" "m_index m = length (c # bef) + length pre"
      "rmatch r (start_state (rev pre @ c # bef) post) \<noteq> []"
      "snd m = hd (rmatch r (start_state (rev pre @ c # bef) post))" by blast
    then show ?thesis
      by (intro exI[of _ "c # pre"] exI[of _ post]) simp
  next
    case (Cons m' ms)
    with Cons.prems show ?thesis
      by (intro exI[of _ "[]"] exI[of _ "c # cs"]) (auto simp: m_index_def)
  qed
qed

lemma exec_from_progress:
  assumes "exec_from r bef rest = Some m"
  shows "length (remaining (snd m)) + min_len r \<le> length rest"
    and "whole_text (snd m) = rev bef @ rest"
proof -
  from exec_from_Some[OF assms] obtain pre post where
    p: "rest = pre @ post" "rmatch r (start_state (rev pre @ bef) post) \<noteq> []"
       "snd m = hd (rmatch r (start_state (rev pre @ bef) post))" by blast
  then have mem: "snd m \<in> set (rmatch r (start_state (rev pre @ bef) post))" by simp
  from rmatch_min_len[OF mem] p(1)
  show "length (remaining (snd m)) + min_len r \<le> length rest"
    by (simp add: start_state_def)
  from rmatch_whole_text[OF mem] p(1)
  show "whole_text (snd m) = rev bef @ rest"
    by (simp add: start_state_def whole_text_def)
qed

lemma exec_all_total:
  "0 < min_len r \<Longrightarrow> \<exists>ms. exec_all r bef rest = Some ms"
proof (induction r bef rest rule: exec_all.induct)
  case (1 r bef rest)
  show ?case
  proof (cases "exec_from r bef rest")
    case None
    then show ?thesis by (subst exec_all.simps) simp
  next
    case (Some m)
    from exec_from_progress(1)[OF Some] 1(2)
    have lt: "length (remaining (snd m)) < length rest" by simp
    from 1(1)[OF Some lt 1(2)] obtain ms where
      "exec_all r (consumed (snd m)) (remaining (snd m)) = Some ms" by blast
    with Some lt show ?thesis by (subst exec_all.simps) simp
  qed
qed

text \<open>Every match of a global scan is a match of the pattern at some cursor of the text.\<close>

lemma exec_all_matches:
  "exec_all r bef rest = Some ms \<Longrightarrow> m \<in> set ms \<Longrightarrow>
   \<exists>bef' rest'. rev bef' @ rest' = rev bef @ rest \<and> m_index m = length bef' \<and>
     rmatch r (start_state bef' rest') \<noteq> [] \<and>
     snd m = hd (rmatch r (start_state bef' rest'))"
proof (induction r bef rest arbitrary: ms rule: exec_all.induct)
  case (1 r bef rest)
  show ?case
  proof (cases "exec_from r bef rest")
    case None
    with 1(2,3) show ?thesis by (subst (asm) exec_all.simps) simp
  next
    case (Some m0)
    show ?thesis
    proof (cases "length (remaining (snd m0)) < length rest")
      case False
      with 1(2) Some show ?thesis by (subst (asm) exec_all.simps) simp
    next
      case True
      with 1(2) Some obtain ms' where
        ms': "exec_all r (consumed (snd m0)) (remaining (snd m0)) = Some ms'" "ms = m0 # ms'"
        by (subst (asm) exec_all.simps) auto
      show ?thesis
      proof (cases "m = m0")
        case True
        from exec_from_Some[OF Some] obtain pre post where
          "rest = pre @ post" "m_index m0 = length bef + length pre"
          "rmatch r (start_state (rev pre @ bef) post) \<noteq> []"
          "snd m0 = hd (rmatch r (start_state (rev pre @ bef) post))" by blast
        then show ?thesis using True
          by (intro exI[of _ "rev pre @ bef"] exI[of _ post]) simp
      next
        case False
        with 1(3) ms' have "m \<in> set ms'" by simp
        from 1(1)[OF Some True ms'(1) this] obtain bef' rest' where
          h: "rev bef' @ rest' = rev (consumed (snd m0)) @ remaining (snd m0)"
          "m_index m = length bef'" "rmatch r (start_state bef' rest') \<noteq> []"
          "snd m = hd (rmatch r (start_state bef' rest'))" by blast
        from exec_from_progress(2)[OF Some] h(1)
        have "rev bef' @ rest' = rev bef @ rest" by (simp add: whole_text_def)
        with h show ?thesis by blast
      qed
    qed
  qed
qed

section \<open>Every scan returns\<close>

lemma min_len_Plus [simp]: "min_len (Plus r) = min_len r"
  by (simp add: Plus_def)

lemma min_len_js_patterns:
  "0 < min_len ES6_IMPORT_REGEX" "0 < min_len REQUIRE_REGEX"
  "0 < min_len DYNAMIC_IMPORT_REGEX" "0 < min_len REEXPORT_REGEX"
  by (simp_all add: ES6_IMPORT_REGEX_def REQUIRE_REGEX_def DYNAMIC_IMPORT_REGEX_def
      REEXPORT_REGEX_def)

lemma min_len_usage_pattern: "min_len (usage_pattern ident) = length ident"
  by (simp add: usage_pattern_def escaped_literal_def)

lemma js_scan_total: "\<exists>all. js_scan doc = Some all"
proof -
  obtain m1 where m1: "exec_all ES6_IMPORT_REGEX [] (getText doc) = Some m1"
    using exec_all_total[OF min_len_js_patterns(1)] by blast
  obtain m2 where m2: "exec_all REQUIRE_REGEX [] (getText doc) = Some m2"
    using exec_all_total[OF min_len_js_patterns(2)] by blast
  obtain m3 where m3: "exec_all DYNAMIC_IMPORT_REGEX [] (getText doc) = Some m3"
    using exec_all_total[OF min_len_js_patterns(3)] by blast
  obtain m4 where m4: "exec_all REEXPORT_REGEX [] (getText doc) = Some m4"
    using exec_all_total[OF min_len_js_patterns(4)] by blast
  show ?thesis
    by (simp add: js_scan_def Let_def parseES6Imports_def parseRequires_def
        parseDynamicImports_def parseReexports_def m1 m2 m3 m4)
qed

lemma parseImports_total: "\<exists>r. parseImports doc = Some r"
proof -
  obtain all where "js_scan doc = Some all" using js_scan_total by blast
  then show ?thesis
    by (simp add: parseImports_def JsTsParser_parse_def split: option.split Parser.split)
qed

lemma findIdentifierUsages_total: "\<exists>locs. findIdentifierUsages doc ident text imp = Some locs"
proof (cases "ident = []")
  case True
  then show ?thesis by (simp add: findIdentifierUsages_def)
next
  case False
  then have "0 < min_len (usage_pattern ident)" by (simp add: min_len_usage_pattern)
  from exec_all_total[OF this] obtain ms where "exec_all (usage_pattern ident) [] text = Some ms"
    by blast
  then show ?thesis using False by (simp add: findIdentifierUsages_def)
qed

lemma usages_of_identifiers_total:
  "\<exists>locs. usages_of_identifiers doc text imp idents acc = Some locs"
proof (induction idents arbitrary: acc)
  case Nil
  then show ?case by simp
next
  case (Cons ident idents)
  obtain found where "findIdentifierUsages doc ident text imp = Some found"
    using findIdentifierUsages_total by blast
  then show ?case using Cons.IH by simp
qed

lemma findUsagesForImport_total: "\<exists>locs. findUsagesForImport doc imp = Some locs"
  by (simp add: findUsagesForImport_def usages_of_identifiers_total)

lemma trackUsages_loop_total: "\<exists>r. trackUsages_loop doc imps us n = Some r"
proof (induction imps arbitrary: us n)
  case Nil
  then show ?case by simp
next
  case (Cons imp imps)
  obtain locs where "findUsagesForImport doc imp = Some locs"
    using findUsagesForImport_total by blast
  then show ?case using Cons.IH by simp
qed

section \<open>Properties of the usage tracker\<close>

lemma trackUsages_loop_count:
  "trackUsages_loop doc imps us n = Some r \<Longrightarrow>
   n = sum_list (map (\<lambda>u. length (usageLocations u)) us) \<Longrightarrow>
   \<forall>u \<in> set us. usageLocations u \<noteq> [] \<Longrightarrow>
   totalUsageCount r = sum_list (map (\<lambda>u. length (usageLocations u)) (usages r)) \<and>
   (\<forall>u \<in> set (usages r). usageLocations u \<noteq> [])"
proof (induction imps arbitrary: us n)
  case Nil
  then show ?case by auto
next
  case (Cons imp imps)
  obtain locs where locs: "findUsagesForImport doc imp = Some locs"
    using findUsagesForImport_total by blast
  show ?case
  proof (cases "locs = []")
    case True
    with Cons.prems locs have "trackUsages_loop doc imps us n = Some r" by simp
    from Cons.IH[OF this Cons.prems(2,3)] show ?thesis .
  next
    case False
    let ?us = "us @ [\<lparr>importInfo = imp, usageLocations = locs\<rparr>]"
    from False Cons.prems locs
    have "trackUsages_loop doc imps ?us (n + length locs) = Some r" by simp
    moreover have "n + length locs = sum_list (map (\<lambda>u. length (usageLocations u)) ?us)"
      using Cons.prems(2) by simp
    moreover have "\<forall>u \<in> set ?us. usageLocations u \<noteq> []"
      using Cons.prems(3) False by simp
    ultimately show ?thesis by (rule Cons.IH)
  qed
qed

text \<open>
  Claim C10: for every document and import list the tracker returns, the count it
  returns is the sum of the lengths of the location lists of the records it returns,
  and each of these lists is non-empty.
\<close>

theorem usage_count_is_sum:
  "\<exists>r. trackUsages doc imps = Some r \<and>
       totalUsageCount r = sum_list (map (\<lambda>u. length (usageLocations u)) (usages r)) \<and>
       (\<forall>u \<in> set (usages r). usageLocations u \<noteq> [])"
proof -
  obtain r where r: "trackUsages_loop doc imps [] 0 = Some r"
    using trackUsages_loop_total by blast
  from trackUsages_loop_count[OF r] r show ?thesis
    by (simp add: trackUsages_def)
qed

lemma numpy_eval:
  "trackUsages (document ''python'' numpy_text)
     (imports_list (PythonParser_parse (document ''python'' numpy_text))) = 
   Some \<lparr>usages = [\<lparr>importInfo = \<lparr>packageName = ''numpy'', importStatement = ''import numpy as np'',
       language = Python, range_loc = \<lparr>range_start = \<lparr>line = 0, character = 0\<rparr>, range_end = \<lparr>line = 0, character = 18\<rparr>\<rparr>,
       fileUri = ''file:///doc'', namedImports = None, isDefaultImport = None, isRequire = None\<rparr>,
       usageLocations = [\<lparr>usage_range = \<lparr>range_start = \<lparr>line = 1, character = 4\<rparr>, range_end = \<lparr>line = 1, character = 6\<rparr>\<rparr>,
          usage_identifier = ''np'', usageType = attribute_access\<rparr>]\<rparr>], totalUsageCount = 1\<rparr>"
  by code_simp

text \<open>The theorem of claim C10 at an aliased import with one usage.\<close>

theorem usage_count_is_sum_witness:
  "\<exists>r. trackUsages (document ''python'' numpy_text)
          (imports_list (PythonParser_parse (document ''python'' numpy_text))) = Some r \<and>
       totalUsageCount r = 1 \<and> map (\<lambda>u. length (usageLocations u)) (usages r) = [1]"
  using usage_count_is_sum[of "document ''python'' numpy_text"
      "imports_list (PythonParser_parse (document ''python'' numpy_text))"]
  by (simp add: numpy_eval)

section \<open>Properties of the entry point\<close>

text \<open>
  Claim C8: for a document whose language tag is none of the five supported tags,
  \<open>parseImports\<close> returns normally, with an empty import list and exactly one error
  string, which names the tag.
\<close>

theorem unsupported_language:
  "languageId doc \<notin> set [''python'', ''javascript'', ''typescript'', ''javascriptreact'', ''typescriptreact''] \<Longrightarrow>
   parseImports doc = Some \<lparr>imports_list = [], errors_list = [''Unsupported language: '' @ languageId doc]\<rparr>"
  by (auto simp: parseImports_def getParser_def Let_def)

text \<open>The theorem of claim C8 at a document tagged \<open>ruby\<close>.\<close>

theorem unsupported_language_witness:
  "parseImports (document ''ruby'' ''import os'') = Some \<lparr>imports_list = [], errors_list = [''Unsupported language: ruby'']\<rparr>"
  using unsupported_language[of "document ''ruby'' ''import os''"]
  by (simp add: document_def)

text \<open>
  Claim C6 does not hold of the code: the namespace form \<open>import * as ns from 'pkg'\<close>
  is not matched by \<open>ES6_IMPORT_REGEX\<close>, whose third group only takes a word after a
  comma, and the parser returns no record for it.
\<close>

theorem namespace_import_not_recognised:
  "parseImports (document ''javascript'' (''import * as ns from '' @ [CHR 0x27] @ ''pkg'' @ [CHR 0x27]))
   = Some \<lparr>imports_list = [], errors_list = []\<rparr>"
  by code_simp

section \<open>Properties of the deduplication\<close>

lemma dedup_loop_props:
  "distinct (map fst seen) \<Longrightarrow> (\<forall>p \<in> set seen. packageName (snd p) = fst p) \<Longrightarrow>
   distinct (map fst (dedup_loop imps seen)) \<and>
   (\<forall>p \<in> set (dedup_loop imps seen). packageName (snd p) = fst p) \<and>
   fst ` set (dedup_loop imps seen) = fst ` set seen \<union> packageName ` set imps \<and>
   (\<forall>p \<in> set (dedup_loop imps seen).
       p \<in> set seen \<or>
       (fst p \<notin> fst ` set seen \<and> find (\<lambda>x. packageName x = fst p) imps = Some (snd p)))"
proof (induction imps arbitrary: seen)
  case Nil
  then show ?case by simp
next
  case (Cons imp imps)
  show ?case
  proof (cases "map_of seen (packageName imp) = None")
    case True
    then have fresh: "packageName imp \<notin> fst ` set seen"
      by (simp add: map_of_eq_None_iff)
    let ?seen = "seen @ [(packageName imp, imp)]"
    let ?R = "dedup_loop imps ?seen"
    have R: "dedup_loop (imp # imps) seen = ?R" using True by (simp add: Let_def)
    have d: "distinct (map fst ?seen)" using Cons.prems(1) fresh by simp
    have k: "\<forall>p \<in> set ?seen. packageName (snd p) = fst p" using Cons.prems(2) by simp
    from Cons.IH[OF d k] have ih:
      "distinct (map fst ?R)" "\<forall>p \<in> set ?R. packageName (snd p) = fst p"
      "fst ` set ?R = fst ` set ?seen \<union> packageName ` set imps"
      "\<forall>p \<in> set ?R. p \<in> set ?seen \<or>
          (fst p \<notin> fst ` set ?seen \<and> find (\<lambda>x. packageName x = fst p) imps = Some (snd p))"
      by blast+
    have c3: "fst ` set ?R = fst ` set seen \<union> packageName ` set (imp # imps)"
      using ih(3) by auto
    have c4: "p \<in> set seen \<or>
          (fst p \<notin> fst ` set seen \<and>
           find (\<lambda>x. packageName x = fst p) (imp # imps) = Some (snd p))"
      if "p \<in> set ?R" for p
    proof -
      from ih(4) that consider "p \<in> set seen" | "p = (packageName imp, imp)"
        | "fst p \<notin> fst ` set ?seen" "find (\<lambda>x. packageName x = fst p) imps = Some (snd p)"
        by auto
      then show ?thesis
      proof cases
        case 1 then show ?thesis by simp
      next
        case 2 then show ?thesis using fresh by simp
      next
        case 3
        from 3(1) have "fst p \<noteq> packageName imp" "fst p \<notin> fst ` set seen" by auto
        with 3(2) show ?thesis by simp
      qed
    qed
    show ?thesis unfolding R using ih(1,2) c3 c4 by blast
  next
    case False
    then have old: "packageName imp \<in> fst ` set seen"
      by (simp add: map_of_eq_None_iff)
    let ?R = "dedup_loop imps seen"
    have R: "dedup_loop (imp # imps) seen = ?R" using False by (auto simp: Let_def)
    from Cons.IH[OF Cons.prems] have ih:
      "distinct (map fst ?R)" "\<forall>p \<in> set ?R. packageName (snd p) = fst p"
      "fst ` set ?R = fst ` set seen \<union> packageName ` set imps"
      "\<forall>p \<in> set ?R. p \<in> set seen \<or>
          (fst p \<notin> fst ` set seen \<and> find (\<lambda>x. packageName x = fst p) imps = Some (snd p))"
      by blast+
    have c3: "fst ` set ?R = fst ` set seen \<union> packageName ` set (imp # imps)"
      using ih(3) old by auto
    have c4: "p \<in> set seen \<or>
          (fst p \<notin> fst ` set seen \<and>
           find (\<lambda>x. packageName x = fst p) (imp # imps) = Some (snd p))"
      if "p \<in> set ?R" for p
    proof -
      from ih(4) that consider "p \<in> set seen"
        | "fst p \<notin> fst ` set seen" "find (\<lambda>x. packageName x = fst p) imps = Some (snd p)"
        by auto
      then show ?thesis
      proof cases
        case 1 then show ?thesis by simp
      next
        case 2
        from 2(1) old have "fst p \<noteq> packageName imp" by metis
        with 2 show ?thesis by simp
      qed
    qed
    show ?thesis unfolding R using ih(1,2) c3 c4 by blast
  qed
qed

lemma deduplicateImports_props:
  "distinct (map packageName (deduplicateImports imps)) \<and>
   packageName ` set (deduplicateImports imps) = packageName ` set imps \<and>
   (\<forall>imp \<in> set (deduplicateImports imps).
      find (\<lambda>x. packageName x = packageName imp) imps = Some imp)"
proof -
  let ?R = "dedup_loop imps []"
  have p: "distinct (map fst ?R)" "\<forall>p \<in> set ?R. packageName (snd p) = fst p"
    "fst ` set ?R = packageName ` set imps"
    "\<forall>p \<in> set ?R. find (\<lambda>x. packageName x = fst p) imps = Some (snd p)"
    using dedup_loop_props[of "[]" imps] by auto
  have eq: "map packageName (map snd ?R) = map fst ?R"
    using p(2) by simp
  have "distinct (map packageName (deduplicateImports imps))"
    unfolding deduplicateImports_def eq by (rule p(1))
  moreover have "packageName ` set (deduplicateImports imps) = packageName ` set imps"
  proof -
    have "packageName ` set (map snd ?R) = set (map packageName (map snd ?R))"
      by (simp only: set_map)
    also have "\<dots> = fst ` set ?R" unfolding eq by simp
    finally show ?thesis using p(3) by (simp add: deduplicateImports_def)
  qed
  moreover have "\<forall>imp \<in> set (deduplicateImports imps).
      find (\<lambda>x. packageName x = packageName imp) imps = Some imp"
    using p(2,4) by (auto simp: deduplicateImports_def)
  ultimately show ?thesis by blast
qed

text \<open>
  Claim C1 as stated fails for Python: the Python parser has no deduplication, and two
  lines \<open>import os\<close> give two records for \<open>os\<close>.
\<close>

theorem python_duplicates_kept:
  "map_option import_names
     (parseImports (document ''python'' (''import os'' @ [CHR 0x0A] @ ''import os'')))
   = Some [''os'', ''os'']"
  by code_simp

text \<open>
  Claim C1, amended: for every JavaScript or TypeScript text the parser returns, and
  of the records its four scans produce it keeps exactly one per canonical package
  name, the first one in the order of the scans.
\<close>

theorem js_first_import_per_package:
  "\<exists>all. js_scan doc = Some all \<and>
     JsTsParser_parse doc =
       Some \<lparr>imports_list = deduplicateImports all, errors_list = []\<rparr> \<and>
     distinct (map packageName (deduplicateImports all)) \<and>
     packageName ` set (deduplicateImports all) = packageName ` set all \<and>
     (\<forall>imp \<in> set (deduplicateImports all).
        find (\<lambda>x. packageName x = packageName imp) all = Some imp)"
proof -
  obtain all where all: "js_scan doc = Some all" using js_scan_total by blast
  then have "JsTsParser_parse doc = Some \<lparr>imports_list = deduplicateImports all, errors_list = []\<rparr>"
    by (simp add: JsTsParser_parse_def)
  with all deduplicateImports_props[of all] show ?thesis by blast
qed

lemma twice_scan:
  "map_option (map (\<lambda>i. (packageName i, importStatement i))) (js_scan (document ''javascript'' twice_text)) =
   Some [(''x'', ''import a from '' @ [CHR 0x27] @ ''x'' @ [CHR 0x27]), (''x'', ''import b from '' @ [CHR 0x27] @ ''x/y'' @ [CHR 0x27])]"
  by code_simp

text \<open>
  The theorem of claim C1 at two imports of the package \<open>x\<close>: the first one is kept.
\<close>

theorem js_first_import_per_package_witness:
  "map_option (\<lambda>r. map (\<lambda>i. (packageName i, importStatement i)) (imports_list r))
     (JsTsParser_parse (document ''javascript'' twice_text)) =
   Some [(''x'', ''import a from '' @ [CHR 0x27] @ ''x'' @ [CHR 0x27])]"
proof -
  from js_first_import_per_package[of "document ''javascript'' twice_text"]
  obtain all where all: "js_scan (document ''javascript'' twice_text) = Some all"
    "JsTsParser_parse (document ''javascript'' twice_text) =
       Some \<lparr>imports_list = deduplicateImports all, errors_list = []\<rparr>"
    "distinct (map packageName (deduplicateImports all))"
    "packageName ` set (deduplicateImports all) = packageName ` set all"
    "\<forall>imp \<in> set (deduplicateImports all). find (\<lambda>x. packageName x = packageName imp) all = Some imp"
    by blast
  from twice_scan all(1) obtain i1 i2 where i: "all = [i1, i2]"
    "packageName i1 = ''x''" "packageName i2 = ''x''"
    "importStatement i1 = ''import a from '' @ [CHR 0x27] @ ''x'' @ [CHR 0x27]"
    by auto
  then have "deduplicateImports all = [i1]"
    by (simp add: deduplicateImports_def Let_def)
  with all(2) i show ?thesis by simp
qed

section \<open>Properties of the Python parser\<close>

lemma paren_loop_ge: "e \<le> fst (paren_loop ls e c)"
  by (induction ls e c rule: paren_loop.induct) (subst paren_loop.simps, auto)

lemma backslash_loop_ge: "e \<le> fst (backslash_loop ls e c)"
  by (induction ls e c rule: backslash_loop.induct) (subst backslash_loop.simps, auto)

lemma createRange_lines:
  "a \<le> b \<Longrightarrow> line (range_start (createRange a 0 b n)) = a \<and>
               line (range_end (createRange a 0 b n)) = b"
  by (auto simp: createRange_def mk_Range_def isBefore_def)

lemma parseFromImport_range:
  "import_found (parseFromImport doc m i ls) = Some x \<Longrightarrow>
   line (range_start (range_loc x)) = i \<and>
   line (range_end (range_loc x)) < nextLineIndex (parseFromImport doc m i ls)"
proof -
  assume a: "import_found (parseFromImport doc m i ls) = Some x"
  define e1 where "e1 = (if str_includes (m_group_str m 2) (CHR 0x28) \<and>
                   \<not> str_includes (m_group_str m 2) (CHR 0x29)
                then paren_loop ls i (m_group_str m 2)
                else (i, m_group_str m 2))"
  define e2 where "e2 = backslash_loop ls (fst e1) (snd e1)"
  have "i \<le> fst e1" by (simp add: e1_def paren_loop_ge)
  also have "fst e1 \<le> fst e2" by (simp add: e2_def backslash_loop_ge)
  finally have le: "i \<le> fst e2" .
  from a have nrel: "\<not> startsWith (m_group_str m 1) ''.''"
    by (auto simp: parseFromImport_def Let_def split: if_splits)
  then have r: "range_loc x = createRange i 0 (fst e2) (length (ls ! fst e2))"
    and n: "nextLineIndex (parseFromImport doc m i ls) = fst e2 + 1"
    using a by (auto simp: parseFromImport_def Let_def split_beta e1_def e2_def)
  show ?thesis using createRange_lines[OF le] r n by simp
qed

lemma parseFromImport_next: "i < nextLineIndex (parseFromImport doc m i ls)"
proof -
  define e1 where "e1 = (if str_includes (m_group_str m 2) (CHR 0x28) \<and>
                   \<not> str_includes (m_group_str m 2) (CHR 0x29)
                then paren_loop ls i (m_group_str m 2)
                else (i, m_group_str m 2))"
  define e2 where "e2 = backslash_loop ls (fst e1) (snd e1)"
  have "i \<le> fst e1" by (simp add: e1_def paren_loop_ge)
  also have "fst e1 \<le> fst e2" by (simp add: e2_def backslash_loop_ge)
  finally have le: "i \<le> fst e2" .
  show ?thesis
    using le by (auto simp: parseFromImport_def Let_def split_beta e1_def e2_def)
qed

lemma getLineRange_lines:
  "getLineRange doc i = Inr r \<Longrightarrow> line (range_start r) = i \<and> line (range_end r) = i"
  by (auto simp: getLineRange_def mk_Range_def isBefore_def split: sum.splits)

lemma multi_import_loop_new:
  "multi_import_loop doc i pkgs acc = Inr res \<Longrightarrow>
   \<exists>new. res = acc @ new \<and>
     (\<forall>x \<in> set new. lineAt doc i = Inr (importStatement x) \<and>
                     getLineRange doc i = Inr (range_loc x))"
proof (induction pkgs arbitrary: acc)
  case Nil
  then show ?case by simp
next
  case (Cons p pkgs)
  show ?case
  proof (cases "p \<noteq> [] \<and> \<not> isRelativeImport p")
    case False
    with Cons.prems have "multi_import_loop doc i pkgs acc = Inr res" by auto
    from Cons.IH[OF this] show ?thesis .
  next
    case True
    with Cons.prems obtain t r where t: "lineAt doc i = Inr t" and r: "getLineRange doc i = Inr r"
      by (auto split: sum.splits)
    let ?x = "\<lparr>packageName = p, importStatement = t, language = Python, range_loc = r,
               fileUri = uri doc, namedImports = None, isDefaultImport = None,
               isRequire = None\<rparr>"
    from True Cons.prems t r have "multi_import_loop doc i pkgs (acc @ [?x]) = Inr res"
      by simp
    from Cons.IH[OF this] obtain new where new: "res = (acc @ [?x]) @ new"
      "\<forall>x \<in> set new. lineAt doc i = Inr (importStatement x) \<and>
                     getLineRange doc i = Inr (range_loc x)" by blast
    show ?thesis
      by (rule exI[of _ "?x # new"]) (use new t r in simp)
  qed
qed

text \<open>What one turn of the loop adds.\<close>

lemma parse_step_new:
  assumes "parse_step doc ls i imps errs = (i', imps', errs')"
  shows "i < i' \<and> (\<exists>new. imps' = imps @ new \<and> sorted_wrt separated new \<and>
           (\<forall>x \<in> set new. i \<le> line (range_start (range_loc x)) \<and>
                           line (range_end (range_loc x)) < i'))"
proof -
  let ?ln = "trim (ls ! i)"
  show ?thesis
  proof (cases "?ln = [] \<or> startsWith ?ln ''#''")
    case True
    with assms show ?thesis by (auto simp: parse_step_def Let_def)
  next
    case False
    note live = this
    show ?thesis
    proof (cases "str_match ?ln FROM_IMPORT_REGEX")
      case (Some fm)
      let ?res = "parseFromImport doc fm i ls"
      from assms live Some have eq: "i' = nextLineIndex ?res"
        "imps' = (case import_found ?res of Some x \<Rightarrow> imps @ [x] | None \<Rightarrow> imps)"
        by (auto simp: parse_step_def Let_def)
      show ?thesis
      proof (cases "import_found ?res")
        case None
        with eq parseFromImport_next[of i doc fm ls] show ?thesis by simp
      next
        case (Some x)
        from parseFromImport_range[OF Some] eq Some parseFromImport_next[of i doc fm ls]
        show ?thesis by (intro conjI exI[of _ "[x]"]) simp_all
      qed
    next
      case None
      note nofrom = this
      show ?thesis
      proof (cases "str_match ?ln MULTI_IMPORT_REGEX")
        case (Some mm)
        show ?thesis
        proof (cases "parseMultiImport doc mm i")
          case (Inl e)
          with assms live nofrom Some show ?thesis
            by (auto simp: parse_step_def Let_def)
        next
          case (Inr parsed)
          with assms live nofrom Some have eq: "i' = i + 1" "imps' = imps @ parsed"
            by (auto simp: parse_step_def Let_def)
          from Inr obtain new where new: "parsed = [] @ new"
            "\<forall>x \<in> set new. lineAt doc i = Inr (importStatement x) \<and>
                     getLineRange doc i = Inr (range_loc x)"
            unfolding parseMultiImport_def Let_def using multi_import_loop_new by blast
          have same: "separated x y" if "x \<in> set parsed" "y \<in> set parsed" for x y
          proof -
            from new that have "x \<in> set new" "y \<in> set new" by simp_all
            with new(2) have "lineAt doc i = Inr (importStatement x)"
              "lineAt doc i = Inr (importStatement y)"
              "getLineRange doc i = Inr (range_loc x)" "getLineRange doc i = Inr (range_loc y)"
              by blast+
            then have "importStatement x = importStatement y" "range_loc x = range_loc y"
              by simp_all
            then show ?thesis by (simp add: separated_def)
          qed
          have sw: "sorted_wrt separated parsed"
            unfolding sorted_wrt_iff_nth_less using same by simp
          have lines: "\<forall>x \<in> set parsed. i \<le> line (range_start (range_loc x)) \<and>
                           line (range_end (range_loc x)) < i + 1"
            using new getLineRange_lines by fastforce
          show ?thesis using eq sw lines by simp
        qed
      next
        case None
        note nomulti = this
        show ?thesis
        proof (cases "str_match ?ln IMPORT_REGEX")
          case None
          with assms live nofrom nomulti show ?thesis
            by (auto simp: parse_step_def Let_def)
        next
          case (Some im)
          show ?thesis
          proof (cases "\<not> isRelativeImport (m_group_str im 1)")
            case False
            with assms live nofrom nomulti Some show ?thesis
              by (auto simp: parse_step_def Let_def)
          next
            case True
            show ?thesis
            proof (cases "getLineRange doc i")
              case (Inl e)
              with assms live nofrom nomulti Some True show ?thesis
                by (auto simp: parse_step_def Let_def)
            next
              case (Inr r)
              let ?x = "\<lparr>packageName = m_group_str im 1, importStatement = ls ! i,
                         language = Python, range_loc = r, fileUri = uri doc,
                         namedImports = None, isDefaultImport = None, isRequire = None\<rparr>"
              from assms live nofrom nomulti Some True Inr
              have eq: "i' = i + 1" "imps' = imps @ [?x]"
                by (auto simp: parse_step_def Let_def)
              from getLineRange_lines[OF Inr] eq show ?thesis
                by (intro conjI exI[of _ "[?x]"]) simp_all
            qed
          qed
        qed
      qed
    qed
  qed
qed

lemma parse_loop_separated:
  "sorted_wrt separated imps \<Longrightarrow>
   (\<forall>x \<in> set imps. line (range_end (range_loc x)) < i) \<Longrightarrow>
   sorted_wrt separated (imports_list (parse_loop doc ls i imps errs))"
proof (induction doc ls i imps errs rule: parse_loop.induct)
  case (1 doc ls i imps errs)
  show ?case
  proof (cases "i < length ls")
    case False
    then show ?thesis using 1(2) by (subst parse_loop.simps) simp
  next
    case True
    obtain i' imps' errs' where st: "parse_step doc ls i imps errs = (i', imps', errs')"
      by (cases "parse_step doc ls i imps errs") auto
    from parse_step_new[OF st] obtain new where new: "i < i'" "imps' = imps @ new"
      "sorted_wrt separated new"
      "\<forall>x \<in> set new. i \<le> line (range_start (range_loc x)) \<and>
                           line (range_end (range_loc x)) < i'" by blast
    have cross: "separated x y" if "x \<in> set imps" "y \<in> set new" for x y
    proof -
      from that 1(3) new(4) have "line (range_end (range_loc x)) < line (range_start (range_loc y))"
        by fastforce
      then show ?thesis by (simp add: separated_def)
    qed
    have sw: "sorted_wrt separated imps'"
      unfolding new(2) sorted_wrt_append using 1(2) new(3) cross by blast
    have ends: "\<forall>x \<in> set imps'. line (range_end (range_loc x)) < i'"
      using 1(3) new(1,2,4) by fastforce
    have "sorted_wrt separated (imports_list (parse_loop doc ls i' imps' errs'))"
      using 1(1)[OF True st[symmetric] refl sw ends] .
    then show ?thesis using True st by (subst parse_loop.simps) simp
  qed
qed

lemma separated_not_overlap:
  "line (range_end a) < line (range_start b) \<Longrightarrow> \<not> ranges_overlap a b"
  by (auto simp: ranges_overlap_def isBefore_def)

text \<open>
  Claim C3, amended: of any two records of one scan of the Python parser, either both
  carry the same statement and the same range, as the records of one multi-import line
  do, or the earlier one ends on a line before the line the later one starts on, and
  their ranges do not overlap.
\<close>

theorem python_ranges_separated:
  "i < j \<Longrightarrow> j < length (imports_list (PythonParser_parse doc)) \<Longrightarrow>
   (range_loc (imports_list (PythonParser_parse doc) ! i) =
      range_loc (imports_list (PythonParser_parse doc) ! j) \<and>
    importStatement (imports_list (PythonParser_parse doc) ! i) =
      importStatement (imports_list (PythonParser_parse doc) ! j)) \<or>
   (line (range_end (range_loc (imports_list (PythonParser_parse doc) ! i))) <
      line (range_start (range_loc (imports_list (PythonParser_parse doc) ! j))) \<and>
    \<not> ranges_overlap (range_loc (imports_list (PythonParser_parse doc) ! i))
                      (range_loc (imports_list (PythonParser_parse doc) ! j)))"
proof -
  assume ij: "i < j" "j < length (imports_list (PythonParser_parse doc))"
  have "sorted_wrt separated (imports_list (PythonParser_parse doc))"
    unfolding PythonParser_parse_def by (rule parse_loop_separated) simp_all
  with ij have "separated (imports_list (PythonParser_parse doc) ! i)
                          (imports_list (PythonParser_parse doc) ! j)"
    by (simp add: sorted_wrt_iff_nth_less)
  then show ?thesis
    using separated_not_overlap by (auto simp: separated_def)
qed

text \<open>
  Claim C3 as stated fails: the two records of the line \<open>import a, b\<close> both carry the
  range of the whole line.
\<close>

theorem python_multi_import_overlap:
  "map_option import_ranges (parseImports (document ''python'' multi_text)) =
     Some [\<lparr>range_start = \<lparr>line = 0, character = 0\<rparr>, range_end = \<lparr>line = 0, character = 11\<rparr>\<rparr>,
           \<lparr>range_start = \<lparr>line = 0, character = 0\<rparr>, range_end = \<lparr>line = 0, character = 11\<rparr>\<rparr>] \<and>
   map_option import_names (parseImports (document ''python'' multi_text)) = Some [''a'', ''b''] \<and>
   ranges_overlap \<lparr>range_start = \<lparr>line = 0, character = 0\<rparr>, range_end = \<lparr>line = 0, character = 11\<rparr>\<rparr>
                  \<lparr>range_start = \<lparr>line = 0, character = 0\<rparr>, range_end = \<lparr>line = 0, character = 11\<rparr>\<rparr>"
  by code_simp

lemma three_eval:
  "import_ranges (PythonParser_parse (document ''python'' three_text)) =
     [\<lparr>range_start = \<lparr>line = 0, character = 0\<rparr>, range_end = \<lparr>line = 0, character = 11\<rparr>\<rparr>,
      \<lparr>range_start = \<lparr>line = 0, character = 0\<rparr>, range_end = \<lparr>line = 0, character = 11\<rparr>\<rparr>,
      \<lparr>range_start = \<lparr>line = 1, character = 0\<rparr>, range_end = \<lparr>line = 1, character = 8\<rparr>\<rparr>]"
  by code_simp

text \<open>The theorem of claim C3 at a multi-import line followed by a simple import.\<close>

theorem python_ranges_separated_witness:
  "\<not> ranges_overlap (import_ranges (PythonParser_parse (document ''python'' three_text)) ! 1)
                     (import_ranges (PythonParser_parse (document ''python'' three_text)) ! 2) \<and>
   import_ranges (PythonParser_parse (document ''python'' three_text)) ! 0 =
   import_ranges (PythonParser_parse (document ''python'' three_text)) ! 1"
proof -
  have len: "length (imports_list (PythonParser_parse (document ''python'' three_text))) = 3"
    using three_eval[unfolded import_ranges_def] by (metis length_map length_Cons list.size(3) numeral_3_eq_3)
  have "(1::nat) < 2" by simp
  moreover have "2 < length (imports_list (PythonParser_parse (document ''python'' three_text)))"
    using len by simp
  ultimately show ?thesis
    using python_ranges_separated[of 1 2 "document ''python'' three_text"] three_eval
    by (auto simp: import_ranges_def)
qed

text \<open>
  The four scans of the JavaScript parser run independently over the same text, and
  their matches can overlap as well: a dynamic import inside the braces of an import
  statement gives two records, one range inside the other.
\<close>

lemma js_ranges_can_overlap:
  "map_option import_ranges (parseImports (document ''javascript'' nested_text)) =
     Some [\<lparr>range_start = \<lparr>line = 0, character = 0\<rparr>, range_end = \<lparr>line = 0, character = 31\<rparr>\<rparr>,
           \<lparr>range_start = \<lparr>line = 0, character = 9\<rparr>, range_end = \<lparr>line = 0, character = 20\<rparr>\<rparr>] \<and>
   ranges_overlap \<lparr>range_start = \<lparr>line = 0, character = 0\<rparr>, range_end = \<lparr>line = 0, character = 31\<rparr>\<rparr>
                  \<lparr>range_start = \<lparr>line = 0, character = 9\<rparr>, range_end = \<lparr>line = 0, character = 20\<rparr>\<rparr>"
  by code_simp

section \<open>Properties of the usage pattern\<close>

lemma rmatch_Star_Cls:
  "t \<in> set (rmatch (Star (Cls P)) s) \<Longrightarrow>
   \<exists>ws. remaining s = ws @ remaining t \<and> (\<forall>w \<in> set ws. P w)"
proof (induction "remaining s" arbitrary: s)
  case Nil
  from rmatch_StarD[OF Nil(2)] Nil(1)[symmetric] show ?case by auto
next
  case (Cons c cs)
  from rmatch_StarD[OF Cons(3)] show ?case
  proof
    assume "t = s" then show ?thesis by simp
  next
    assume "\<exists>s' \<in> set (rmatch (Cls P) s).
       length (remaining s') < length (remaining s) \<and> t \<in> set (rmatch (Star (Cls P)) s')"
    then obtain s' where s': "s' \<in> set (rmatch (Cls P) s)" "t \<in> set (rmatch (Star (Cls P)) s')"
      by blast
    from s'(1) Cons(2)[symmetric] have P: "P c" and r: "remaining s' = cs"
      by (auto simp: advance_def split: if_splits)
    from Cons(1)[OF r[symmetric] s'(2)] obtain ws where
      "remaining s' = ws @ remaining t" "\<forall>w \<in> set ws. P w" by blast
    with P r Cons(2)[symmetric] show ?thesis
      by (intro exI[of _ "c # ws"]) simp
  qed
qed

lemma rmatch_Ahead_nonempty: "rmatch (Ahead r) s \<noteq> [] \<Longrightarrow> rmatch r s \<noteq> []"
  by (auto split: list.splits)

lemma rmatch_Seq_nonempty:
  "rmatch (Seq r1 r2) s \<noteq> [] \<Longrightarrow> \<exists>s' \<in> set (rmatch r1 s). rmatch r2 s' \<noteq> []"
  by auto

lemma rmatch_Lit_mem:
  "t \<in> set (rmatch (Lit l) s) \<Longrightarrow> remaining s = l @ remaining t"
  by (auto simp: advance_def split: if_splits) (metis append_take_drop_id)

lemma rmatch_Cls_nonempty:
  "rmatch (Cls P) s \<noteq> [] \<Longrightarrow> \<exists>c rest. remaining s = c # rest \<and> P c"
  by (cases "remaining s") (auto split: if_splits)

lemma rmatch_NotBehind_mem: "t \<in> set (rmatch (NotBehind P) s) \<Longrightarrow> t = s"
  by (auto split: list.splits if_splits)

lemma usage_pattern_match:
  assumes "rmatch (usage_pattern ident) s \<noteq> []"
  shows "\<exists>ws c rest. remaining s = ident @ ws @ c # rest \<and> (\<forall>w \<in> set ws. is_ws w) \<and> is_follow c"
proof -
  let ?look = "Seq (Star (Cls is_ws)) (Cls is_follow)"
  have pat: "usage_pattern ident = Seq (NotBehind is_word) (Seq (Lit ident) (Ahead ?look))"
    by (simp add: usage_pattern_def escaped_literal_def)
  from rmatch_Seq_nonempty[OF assms[unfolded pat]] obtain s1 where
    s1: "s1 \<in> set (rmatch (NotBehind is_word) s)"
    and rest: "rmatch (Seq (Lit ident) (Ahead ?look)) s1 \<noteq> []" by blast
  from rmatch_NotBehind_mem[OF s1] have s1_eq: "s1 = s" .
  from rmatch_Seq_nonempty[OF rest] obtain s2 where s2: "s2 \<in> set (rmatch (Lit ident) s1)"
    and look: "rmatch (Ahead ?look) s2 \<noteq> []" by blast
  from rmatch_Lit_mem[OF s2] s1_eq have pre: "remaining s = ident @ remaining s2" by simp
  from rmatch_Seq_nonempty[OF rmatch_Ahead_nonempty[OF look]] obtain s3 where
    s3: "s3 \<in> set (rmatch (Star (Cls is_ws)) s2)"
    and last: "rmatch (Cls is_follow) s3 \<noteq> []" by blast
  from rmatch_Star_Cls[OF s3] obtain ws where ws: "remaining s2 = ws @ remaining s3"
    "\<forall>w \<in> set ws. is_ws w" by blast
  from rmatch_Cls_nonempty[OF last] obtain c rest where c: "remaining s3 = c # rest" "is_follow c"
    by blast
  from pre ws c show ?thesis by auto
qed

lemma set_map_filter_iff:
  "y \<in> set (List.map_filter f xs) \<longleftrightarrow> (\<exists>x \<in> set xs. f x = Some y)"
  by (induction xs) (auto split: option.splits)

text \<open>
  Claim C5, amended: every usage the locator reports is an occurrence of the
  identifier in the text that is followed, after optional white space, by a follow
  character. An occurrence with no such character after it is never reported; in
  particular an identifier at the very end of the text, with nothing after it, is never
  reported: a reported occurrence ends before the end of the text.
\<close>

theorem usage_needs_follow_char:
  assumes "findIdentifierUsages doc ident text imp = Some locs" and "loc \<in> set locs"
  shows "\<exists>i ws c rest.
           drop i text = ident @ ws @ c # rest \<and>
           (\<forall>w \<in> set ws. is_ws w) \<and> is_follow c \<and>
           i + length ident < length text \<and>
           usage_range loc =
             mk_Range (positionAt doc i) (positionAt doc (i + length ident)) \<and>
           usage_identifier loc = ident"
proof -
  from assms have ne: "ident \<noteq> []"
    by (auto simp: findIdentifierUsages_def split: if_splits)
  with assms(1) obtain ms where ms: "exec_all (usage_pattern ident) [] text = Some ms"
    and locs: "locs = List.map_filter (usage_of_match doc ident text imp) ms"
    by (auto simp: findIdentifierUsages_def)
  from assms(2) locs obtain m where m: "m \<in> set ms"
    and um: "usage_of_match doc ident text imp m = Some loc"
    by (auto simp: set_map_filter_iff)
  from exec_all_matches[OF ms m] obtain bef rest where
    t: "rev bef @ rest = text" and i: "m_index m = length bef"
    and mt: "rmatch (usage_pattern ident) (start_state bef rest) \<noteq> []"
    by auto
  from usage_pattern_match[OF mt] obtain ws c rest' where
    f: "rest = ident @ ws @ c # rest'" "\<forall>w \<in> set ws. is_ws w" "is_follow c"
    by (auto simp: start_state_def)
  have d: "drop (m_index m) text = rest"
    using t i by (metis append_eq_conv_conj length_rev)
  from um have r: "usage_range loc =
      mk_Range (positionAt doc (m_index m)) (positionAt doc (m_index m + length ident))"
    and u: "usage_identifier loc = ident"
    by (auto simp: usage_of_match_def Let_def split: if_splits)
  have "length (drop (m_index m) text) = length ident + length ws + Suc (length rest')"
    unfolding d f(1) by simp
  then have e: "m_index m + length ident < length text" by simp
  show ?thesis
    using d f e r u by blast
qed

text \<open>
  Claim C5 as stated fails for an identifier at the end of a line: in the text below
  the line feed that closes line 2 is white space, which is a follow character, and the
  \<open>os\<close> that ends the line is reported.
\<close>

theorem identifier_at_line_end_reported:
  "doc_lines (document ''python'' eol_text) = [''import os'', ''x = os'', []] \<and>
   map_option usage_lists
     (trackUsages (document ''python'' eol_text)
        (imports_list (PythonParser_parse (document ''python'' eol_text)))) =
   Some [[\<lparr>usage_range = \<lparr>range_start = \<lparr>line = 1, character = 4\<rparr>,
                            range_end = \<lparr>line = 1, character = 6\<rparr>\<rparr>,
           usage_identifier = ''os'', usageType = reference\<rparr>]]"
  by code_simp

lemma numpy_usage_eval:
  "findIdentifierUsages (document ''python'' numpy_text) ''np'' numpy_text
     (hd (imports_list (PythonParser_parse (document ''python'' numpy_text)))) =
   Some [\<lparr>usage_range = \<lparr>range_start = \<lparr>line = 1, character = 4\<rparr>,
                          range_end = \<lparr>line = 1, character = 6\<rparr>\<rparr>,
         usage_identifier = ''np'', usageType = attribute_access\<rparr>]"
  by code_simp

text \<open>
  The theorem of claim C5 at the usage \<open>np.array\<close>: the follow character is the dot.
\<close>

theorem usage_needs_follow_char_witness:
  "\<exists>i ws c rest.
     drop i numpy_text = ''np'' @ ws @ c # rest \<and> (\<forall>w \<in> set ws. is_ws w) \<and> is_follow c \<and>
     i + length ''np'' < length numpy_text \<and>
     \<lparr>range_start = \<lparr>line = 1, character = 4\<rparr>, range_end = \<lparr>line = 1, character = 6\<rparr>\<rparr> =
       mk_Range (positionAt (document ''python'' numpy_text) i)
                (positionAt (document ''python'' numpy_text) (i + length ''np''))"
  using usage_needs_follow_char[OF numpy_usage_eval, of
      "\<lparr>usage_range = \<lparr>range_start = \<lparr>line = 1, character = 4\<rparr>,
                         range_end = \<lparr>line = 1, character = 6\<rparr>\<rparr>,
        usage_identifier = ''np'', usageType = attribute_access\<rparr>"]
  by simp

section \<open>Properties of the comment and string test\<close>

subsection \<open>The line of a position\<close>

lemma last_index_upto_eq:
  "k < length s \<Longrightarrow>
   last_index_upto s c k =
     int k - int (length (takeWhile (\<lambda>x. x \<noteq> c) (rev (take (Suc k) s))))"
proof (induction k)
  case 0
  then show ?case by (cases s) auto
next
  case (Suc k)
  then have t: "take (Suc (Suc k)) s = take (Suc k) s @ [s ! Suc k]"
    by (simp add: take_Suc_conv_app_nth)
  show ?case
  proof (cases "s ! Suc k = c")
    case True
    with Suc.prems t show ?thesis by simp
  next
    case False
    with Suc t show ?thesis by simp
  qed
qed

lemma rev_takeWhile_rev_drop:
  "rev (takeWhile P (rev xs)) = drop (length xs - length (takeWhile P (rev xs))) xs"
proof -
  define L where "L = length (takeWhile P (rev xs))"
  have "takeWhile P (rev xs) = take L (rev xs)"
    unfolding L_def by (rule takeWhile_eq_take)
  then have "rev (takeWhile P (rev xs)) = rev (take L (rev xs))" by simp
  also have "\<dots> = drop (length xs - L) xs" by (simp add: rev_take)
  finally show ?thesis unfolding L_def .
qed

lemma line_prefix_length_le: "length (line_prefix pos text) \<le> min pos (length text)"
proof -
  have "length (takeWhile (\<lambda>c. c \<noteq> CHR 0x0A) (rev (take pos text))) \<le> length (rev (take pos text))"
    by (rule length_takeWhile_le)
  then show ?thesis by (simp add: line_prefix_def min.commute)
qed

lemma line_prefix_drop:
  "line_prefix pos text =
     drop (min pos (length text) - length (line_prefix pos text)) (take pos text)"
proof -
  have "length (line_prefix pos text) =
        length (takeWhile (\<lambda>c. c \<noteq> CHR 0x0A) (rev (take pos text)))"
    by (simp add: line_prefix_def)
  moreover have "length (take pos text) = min pos (length text)"
    by (simp add: min.commute)
  ultimately show ?thesis
    using rev_takeWhile_rev_drop[of "\<lambda>c. c \<noteq> CHR 0x0A" "take pos text"]
    by (simp only: line_prefix_def)
qed

text \<open>The start of the line of a position.\<close>

lemma lineStart_eq:
  assumes "pos > 0"
  shows "lastIndexOf text (CHR 0x0A) (int pos - 1) + 1 =
         int (min pos (length text)) - int (length (line_prefix pos text))"
proof (cases "text = []")
  case True
  then show ?thesis by (simp add: lastIndexOf_def line_prefix_def)
next
  case False
  let ?k = "min (pos - 1) (length text - 1)"
  have k: "?k < length text" using False by (cases "text") auto
  have sk: "Suc ?k = min pos (length text)" using assms False by (cases "text") auto
  have "take (Suc ?k) text = take pos text"
    unfolding sk by (simp add: min_def)
  with last_index_upto_eq[OF k, of "CHR 0x0A"]
  have "last_index_upto text (CHR 0x0A) ?k =
        int ?k - int (length (line_prefix pos text))"
    by (simp add: line_prefix_def)
  moreover have "nat (max 0 (int pos - 1)) = pos - 1" using assms by simp
  ultimately show ?thesis
    using False sk by (simp add: lastIndexOf_def)
qed

subsection \<open>Counting matches of a literal\<close>

lemma match_all_skip:
  assumes "rmatch r (start_state bef (x # xs)) = []" and "0 < min_len r"
  shows "match_all r bef (x # xs) = match_all r (x # bef) xs"
proof (cases "exec_from r (x # bef) xs")
  case None
  then have "exec_from r bef (x # xs) = None" using assms(1) by simp
  have "match_all r bef (x # xs) = []"
    unfolding match_all.simps[of r bef "x # xs"] \<open>exec_from r bef (x # xs) = None\<close> by simp
  moreover have "match_all r (x # bef) xs = []"
    unfolding match_all.simps[of r "x # bef" xs] None by simp
  ultimately show ?thesis by simp
next
  case (Some m)
  then have e: "exec_from r bef (x # xs) = Some m" using assms(1) by simp
  from exec_from_progress(1)[OF Some] assms(2)
  have lt: "length (remaining (snd m)) < length xs" by simp
  then have lt': "length (remaining (snd m)) < length (x # xs)" by simp
  have "match_all r bef (x # xs) =
        (if m_end m = m_index m then
           m # (case remaining (snd m) of [] \<Rightarrow> []
                | c # cs \<Rightarrow> match_all r (c # consumed (snd m)) cs)
         else m # match_all r (consumed (snd m)) (remaining (snd m)))"
    unfolding match_all.simps[of r bef "x # xs"] e using lt' by simp
  moreover have "match_all r (x # bef) xs =
        (if m_end m = m_index m then
           m # (case remaining (snd m) of [] \<Rightarrow> []
                | c # cs \<Rightarrow> match_all r (c # consumed (snd m)) cs)
         else m # match_all r (consumed (snd m)) (remaining (snd m)))"
    unfolding match_all.simps[of r "x # bef" xs] Some using lt by simp
  ultimately show ?thesis by simp
qed

lemma match_all_Lit_here:
  assumes "take (length l) rest = l" and "l \<noteq> []"
  shows "length (match_all (Lit l) bef rest) =
         Suc (length (match_all (Lit l) (rev l @ bef) (drop (length l) rest)))"
proof -
  let ?m = "(length bef, advance (length l) (start_state bef rest))"
  from assms obtain x xs where rest: "rest = x # xs" by (cases rest) auto
  have e: "exec_from (Lit l) bef rest = Some ?m"
    unfolding rest using assms(1)[unfolded rest] by (simp add: start_state_def)
  have "min (length rest) (length l) = length l"
    using assms(1) by (metis length_take)
  then have len: "length l \<le> length rest" by simp
  have rem: "remaining (advance (length l) (start_state bef rest)) = drop (length l) rest"
    and con: "consumed (advance (length l) (start_state bef rest)) = rev l @ bef"
    using assms(1) by (simp_all add: advance_def start_state_def)
  have "0 < length l" using assms(2) by simp
  with len have "length rest - length l < length rest" by arith
  then have lt: "length (remaining (snd ?m)) < length rest"
    by (simp add: rem)
  have ne: "m_end ?m \<noteq> m_index ?m"
    using assms(2) by (simp add: m_end_def m_index_def con)
  have "match_all (Lit l) bef rest =
        ?m # match_all (Lit l) (consumed (snd ?m)) (remaining (snd ?m))"
    unfolding match_all.simps[of "Lit l" bef rest] e using lt ne by simp
  then show ?thesis by (simp add: rem con)
qed

lemma match_all_Lit_Nil: "l \<noteq> [] \<Longrightarrow> match_all (Lit l) bef [] = []"
  unfolding match_all.simps[of "Lit l" bef "[]"] by (auto simp: start_state_def)

lemma count_single:
  "length (match_all (Lit [c]) bef s) = count_chr c s"
proof (induction s arbitrary: bef)
  case Nil
  then show ?case by (simp add: match_all_Lit_Nil count_chr_def)
next
  case (Cons x xs)
  show ?case
  proof (cases "x = c")
    case True
    then have "take (length [c]) (x # xs) = [c]" by simp
    from match_all_Lit_here[OF this] Cons.IH True show ?thesis
      by (simp add: count_chr_def)
  next
    case False
    then have "rmatch (Lit [c]) (start_state bef (x # xs)) = []"
      by (simp add: start_state_def)
    from match_all_skip[OF this] Cons.IH False show ?thesis
      by (simp add: count_chr_def)
  qed
qed

lemma count_triple:
  "length (match_all (Lit [c, c, c]) bef s) = count_triples c s"
proof (induction c s arbitrary: bef rule: count_triples.induct)
  case (1 c x y z rest)
  show ?case
  proof (cases "x = c \<and> y = c \<and> z = c")
    case True
    then have "take (length [c, c, c]) (x # y # z # rest) = [c, c, c]" by simp
    from match_all_Lit_here[OF this] 1(1)[OF True] True show ?thesis by simp
  next
    case False
    then have "rmatch (Lit [c, c, c]) (start_state bef (x # y # z # rest)) = []"
      by (auto simp: start_state_def)
    from match_all_skip[OF this] 1(2)[OF False] False show ?thesis by auto
  qed
next
  case (2 c)
  then show ?case by (simp add: match_all_Lit_Nil)
next
  case (3 c v)
  have "rmatch (Lit [c, c, c]) (start_state bef [v]) = []" by (simp add: start_state_def)
  from match_all_skip[OF this] show ?case by (simp add: match_all_Lit_Nil)
next
  case (4 c v vb)
  have a: "rmatch (Lit [c, c, c]) (start_state bef [v, vb]) = []" by (simp add: start_state_def)
  have b: "rmatch (Lit [c, c, c]) (start_state (v # bef) [vb]) = []" by (simp add: start_state_def)
  show ?case
    using match_all_skip[OF a] match_all_skip[OF b] by (simp add: match_all_Lit_Nil)
qed

lemma count_matches_quotes:
  "int (count_matches s (Lit [c])) - int (count_matches s (Lit [c, c, c])) * 3 =
   int (count_chr c s) - 3 * int (count_triples c s)"
  by (simp add: count_matches_def count_single count_triple)

subsection \<open>The test\<close>

lemma isWithinCommentOrString_parts:
  assumes "lastIndexOf text (CHR 0x0A) (int pos - 1) + 1 = S"
    and "(if indexOf_from text (CHR 0x0A) pos = - 1 then int (length text)
          else indexOf_from text (CHR 0x0A) pos) = E"
    and "substring text S E = ln"
    and "substring ln 0 (int pos - S) = before"
  shows "isWithinCommentOrString pos text =
         ((indexOf ln CHR ''#'' \<noteq> - 1 \<and> int pos - S > indexOf ln CHR ''#'') \<or>
          in_string before)"
proof -
  have q: "((int (count_matches s (Lit [c])) - int (count_matches s (Lit [c, c, c])) * 3) mod 2 \<noteq> 0)
           = odd_quotes c s" for s c
    unfolding count_matches_quotes odd_quotes_def by (simp add: even_iff_mod_2_eq_zero)
  show ?thesis
    unfolding isWithinCommentOrString_def Let_def assms q in_string_def
    by auto
qed

lemma lineEnd_eq:
  "(if indexOf_from text c pos = - 1 then int (length text) else indexOf_from text c pos) =
   int (min pos (length text)) + int (length (takeWhile (\<lambda>x. x \<noteq> c) (drop pos text)))"
proof (cases "drop pos text")
  case Nil
  then show ?thesis by simp
next
  case (Cons x xs)
  then have lt: "pos < length text" by (cases "pos < length text") auto
  show ?thesis
  proof (cases "c \<in> set (drop pos text)")
    case True
    with Cons lt show ?thesis by (simp add: min_def)
  next
    case False
    then have "takeWhile (\<lambda>x. x \<noteq> c) (drop pos text) = drop pos text"
      by (auto intro: takeWhile_eq_all_conv[THEN iffD2])
    then have "length (takeWhile (\<lambda>x. x \<noteq> c) (drop pos text)) = length (drop pos text)"
      by (rule arg_cong)
    then have "length (takeWhile (\<lambda>x. x \<noteq> c) (drop pos text)) = length text - pos"
      by (simp only: length_drop)
    moreover have "indexOf_from text c pos = - 1"
      using False Cons by simp
    ultimately show ?thesis using lt by (simp add: min_def)
  qed
qed

lemma substring_nat:
  "a \<le> b \<Longrightarrow> b \<le> length s \<Longrightarrow> substring s (int a) (int b) = take (b - a) (drop a s)"
  by (simp add: substring_def Let_def min_def max_def)

lemma hash_before_iff:
  "(indexOf ln c \<noteq> - 1 \<and> k > indexOf ln c) = (c \<in> set (take (nat k) ln))"
proof (cases "c \<in> set ln")
  case False
  then have "c \<notin> set (take (nat k) ln)" by (meson in_set_takeD)
  with False show ?thesis by (simp add: indexOf_absent)
next
  case True
  let ?p = "takeWhile (\<lambda>x. x \<noteq> c) ln"
  have ln: "ln = ?p @ c # tl (dropWhile (\<lambda>x. x \<noteq> c) ln)"
    using True by (metis (mono_tags, lifting) dropWhile_eq_Nil_conv hd_dropWhile list.collapse takeWhile_dropWhile_id)
  have np: "c \<notin> set ?p" by (auto dest: set_takeWhileD)
  have "(c \<in> set (take (nat k) ln)) = (length ?p < nat k)"
  proof
    assume "length ?p < nat k"
    then have "take (nat k) ln = ?p @ c # take (nat k - Suc (length ?p)) (tl (dropWhile (\<lambda>x. x \<noteq> c) ln))"
      by (subst ln) (simp add: Suc_diff_Suc take_Cons')
    then show "c \<in> set (take (nat k) ln)" by simp
  next
    assume a: "c \<in> set (take (nat k) ln)"
    show "length ?p < nat k"
    proof (rule ccontr)
      assume "\<not> length ?p < nat k"
      then have "take (nat k) ln = take (nat k) ?p"
        by (subst ln) simp
      with a have "c \<in> set (take (nat k) ?p)" by simp
      then have "c \<in> set ?p" by (rule in_set_takeD)
      with np show False by simp
    qed
  qed
  with True show ?thesis by (simp add: indexOf_present) linarith
qed

text \<open>
  Claim C4, amended: a match is discarded if and only if a hash sign occurs anywhere
  before it on its line, inside a string literal or not, escaped or not, or the count
  of single quotes (minus three per triple single quote) or of double quotes (minus three
  per triple double quote) before it on its line is odd.
\<close>

theorem comment_or_string_test:
  "isWithinCommentOrString pos text = discard_by_first_hash pos text"
proof -
  let ?nl = "CHR 0x0A"
  let ?n = "length text"
  let ?m = "min pos ?n"
  let ?A = "line_prefix pos text"
  let ?B = "takeWhile (\<lambda>x. x \<noteq> ?nl) (drop pos text)"
  show ?thesis
  proof (cases "pos = 0 \<and> text \<noteq> [] \<and> hd text = ?nl")
    case True
    then obtain rest where t: "text = ?nl # rest" and p: "pos = 0" by (cases "text") auto
    have "isWithinCommentOrString 0 (?nl # rest) = False"
      by (rule isWithinCommentOrString_parts[of _ _ 1 0 "[?nl]" "[]", THEN trans])
        (simp_all add: lastIndexOf_def substring_def indexOf_def in_string_def odd_quotes_def
          count_chr_def)
    then show ?thesis
      unfolding t p by (simp add: discard_by_first_hash_def line_prefix_def in_string_def
          odd_quotes_def count_chr_def)
  next
    case False
    have S: "lastIndexOf text ?nl (int pos - 1) + 1 = int ?m - int (length ?A)"
    proof (cases "pos = 0")
      case False
      then show ?thesis using lineStart_eq[of pos "text"] by simp
    next
      case True
      with False have "text = [] \<or> hd text \<noteq> ?nl" by simp
      then show ?thesis using True
        by (cases "text") (auto simp: lastIndexOf_def line_prefix_def)
    qed
    have E: "(if indexOf_from text ?nl pos = - 1 then int ?n else indexOf_from text ?nl pos) =
             int ?m + int (length ?B)"
      by (rule lineEnd_eq)
    have Ale: "length ?A \<le> ?m" by (rule line_prefix_length_le)
    have dm: "drop pos text = drop ?m text" by (simp add: min_def)
    have B: "?B = take (length ?B) (drop ?m text)"
      unfolding dm[symmetric] by (rule takeWhile_eq_take)
    have tm: "take pos text = take ?m text" by (simp add: min_def)
    have dA: "drop (?m - length ?A) (take ?m text) = ?A"
      using line_prefix_drop[of pos "text"] unfolding tm by simp
    have "drop (?m - length ?A) text =
          drop (?m - length ?A) (take ?m text) @ drop ?m text"
      by (metis append_take_drop_id diff_le_self drop_append length_take min.absorb2
          min.cobounded2 diff_is_0_eq' drop0 min.commute)
    then have dt: "drop (?m - length ?A) text = ?A @ drop ?m text" using dA by simp
    have ln: "substring text (int ?m - int (length ?A)) (int ?m + int (length ?B)) = ?A @ ?B"
    proof -
      have Bn: "?m + length ?B \<le> ?n"
        by (metis B add.commute le_diff_conv2 length_drop length_take min.cobounded1
            min.cobounded2 min.commute)
      have i1: "int ?m - int (length ?A) = int (?m - length ?A)"
        using Ale by simp
      have i2: "int ?m + int (length ?B) = int (?m + length ?B)" by simp
      have le: "?m - length ?A \<le> ?m + length ?B" by arith
      have df: "?m + length ?B - (?m - length ?A) = length ?A + length ?B"
        using Ale by arith
      have "substring text (int ?m - int (length ?A)) (int ?m + int (length ?B)) =
            take (length ?A + length ?B) (drop (?m - length ?A) text)"
        unfolding i1 i2 substring_nat[OF le Bn] df ..
      also have "\<dots> = ?A @ take (length ?B) (drop ?m text)" unfolding dt by simp
      finally show ?thesis using B by simp
    qed
    have posInLine: "int pos - (int ?m - int (length ?A)) = int (pos - ?m + length ?A)"
      by (simp add: min_def)
    have tk: "take (pos - ?m + length ?A) (?A @ ?B) = ?A"
    proof (cases "pos \<le> ?n")
      case True
      then show ?thesis by (simp add: min_def)
    next
      case False
      then have "?B = []" by simp
      then show ?thesis by simp
    qed
    have "substring (?A @ ?B) 0 (int (pos - ?m + length ?A)) =
          take (nat (int (pos - ?m + length ?A))) (?A @ ?B)"
      by (rule substring_prefix) simp
    then have before: "substring (?A @ ?B) 0 (int pos - (int ?m - int (length ?A))) = ?A"
      by (simp only: posInLine nat_int tk)
    have "isWithinCommentOrString pos text =
          ((indexOf (?A @ ?B) CHR ''#'' \<noteq> - 1 \<and>
            int pos - (int ?m - int (length ?A)) > indexOf (?A @ ?B) CHR ''#'') \<or>
           in_string ?A)"
      by (rule isWithinCommentOrString_parts[OF S E ln before])
    also have "\<dots> = (CHR ''#'' \<in> set ?A \<or> in_string ?A)"
      by (simp only: hash_before_iff posInLine nat_int tk)
    finally show ?thesis by (simp add: discard_by_first_hash_def)
  qed
qed

text \<open>
  Claim C4 as stated fails: in the line \<open>x = "#"; os.path\<close> the hash sign lies inside
  a string literal and the quotes before \<open>os\<close> are even, yet the code discards the match.
\<close>

theorem hash_in_string_discarded:
  "line_prefix 19 hash_text = ''x = '' @ [CHR 0x22] @ ''#'' @ [CHR 0x22] @ ''; '' \<and>
   isWithinCommentOrString 19 hash_text \<and>
   \<not> discard_as_claimed 19 hash_text \<and>
   map_option usage_lists
     (trackUsages (document ''python'' hash_text)
        (imports_list (PythonParser_parse (document ''python'' hash_text)))) = Some []"
  by code_simp

text \<open>The theorem of claim C4 at the match after the hash sign in a string literal.\<close>

theorem comment_or_string_test_witness:
  "discard_by_first_hash 19 hash_text"
proof -
  have "isWithinCommentOrString 19 hash_text" by code_simp
  then show ?thesis by (simp only: comment_or_string_test)
qed

section \<open>Properties of the named import lists\<close>










subsection \<open>The match the engine reports\<close>




















subsection \<open>The names of a written list\<close>














subsection \<open>A one-line statement in Python\<close>





subsection \<open>A statement in JavaScript and TypeScript\<close>














subsection \<open>The named imports of the record\<close>



text \<open>
  A Python statement continued over lines is not of these forms. Continued with a
  backslash, it gives a list in which the backslash stays in the name that follows it.
\<close>

lemma backslash_continuation:
  "map_option import_named (parseImports (document ''python'' backslash_text)) =
     Some [Some [''a'', [CHR 0x5C] @ '' b'']]"
  by code_simp


end
